theory Spec2Isabelle
  imports
    Main
    "HOL-Library.Word"
    "HOL-Library.Char_ord"
    "HOL-Library.List_Lexorder"
    "HOL-Library.Multiset"
    "HOL-Library.AList"
begin

section \<open>Basic types\<close>

text \<open>
  Go's \<open>int64\<close> and \<open>uint64\<close> are 64-bit words: addition and subtraction wrap.
  A \<open>float64\<close> is represented by its IEEE-754 bit pattern, which is exactly what
  \<open>math.Float64bits\<close> reads and \<open>math.Float64frombits\<close> writes back; no floating
  point arithmetic is performed anywhere in the metrics core.
\<close>

type_synonym int64 = "64 word"
type_synonym uint64 = "64 word"
type_synonym float64 = "64 word"

definition Float64bits :: "float64 \<Rightarrow> uint64" where
  "Float64bits v = v"

definition Float64frombits :: "uint64 \<Rightarrow> float64" where
  "Float64frombits b = b"

text \<open>
  A Go \<open>map[string]string\<close> is either \<open>nil\<close> (\<open>None\<close>) or a table, modelled as an
  association list with distinct keys whose order stands for the (unspecified) iteration
  order of \<open>range\<close>.
\<close>

type_synonym gomap = "(string \<times> string) list option"

definition entries :: "gomap \<Rightarrow> (string \<times> string) list" where
  "entries m = (case m of None \<Rightarrow> [] | Some al \<Rightarrow> al)"

definition len_map :: "gomap \<Rightarrow> nat" where
  "len_map m = length (entries m)"

text \<open>\<open>m[k]\<close>: the zero value (the empty string) for a missing key.\<close>

definition index_map :: "gomap \<Rightarrow> string \<Rightarrow> string" where
  "index_map m k = (case map_of (entries m) k of None \<Rightarrow> [] | Some v \<Rightarrow> v)"

definition wf_map :: "gomap \<Rightarrow> bool" where
  "wf_map m = distinct (map fst (entries m))"

section \<open>The reporter\<close>

text \<open>
  The \<open>StatsReporter\<close> interface is an injected collaborator. It is modelled by the
  sequence of calls it has received, oldest first.
\<close>

datatype event =
    ReportCounter string gomap int64
  | ReportGauge string gomap float64
  | Flush
  | CloseReporter

type_synonym StatsReporter = "event list"

section \<open>Counters and gauges (stats.go)\<close>

record counter =
  prev :: int64
  curr :: int64

definition newCounter :: counter where
  "newCounter = \<lparr>prev = 0, curr = 0\<rparr>"

definition counter_Inc :: "int64 \<Rightarrow> counter \<Rightarrow> counter" where
  "counter_Inc v c = c\<lparr>curr := curr c + v\<rparr>"

definition counter_value :: "counter \<Rightarrow> int64 \<times> counter" where
  "counter_value c =
     (let cu = curr c; pr = prev c
      in if pr = cu then (0, c) else (cu - pr, c\<lparr>prev := cu\<rparr>))"

definition counter_report ::
  "string \<Rightarrow> gomap \<Rightarrow> StatsReporter \<Rightarrow> counter \<Rightarrow> counter \<times> StatsReporter" where
  "counter_report name tags r c =
     (let (delta, c') = counter_value c
      in if delta = 0 then (c', r) else (c', r @ [ReportCounter name tags delta]))"

definition counter_snapshot :: "counter \<Rightarrow> int64" where
  "counter_snapshot c = curr c - prev c"

record gauge =
  updated :: uint64
  gcurr :: uint64

definition newGauge :: gauge where
  "newGauge = \<lparr>updated = 0, gcurr = 0\<rparr>"

definition gauge_Update :: "float64 \<Rightarrow> gauge \<Rightarrow> gauge" where
  "gauge_Update v g = (g\<lparr>gcurr := Float64bits v\<rparr>)\<lparr>updated := 1\<rparr>"

definition gauge_value :: "gauge \<Rightarrow> float64" where
  "gauge_value g = Float64frombits (gcurr g)"

text \<open>\<open>atomic.SwapUint64(&g.updated, 0)\<close> stores 0 and returns the old value.\<close>

definition gauge_report ::
  "string \<Rightarrow> gomap \<Rightarrow> StatsReporter \<Rightarrow> gauge \<Rightarrow> gauge \<times> StatsReporter" where
  "gauge_report name tags r g =
     (let old = updated g; g' = g\<lparr>updated := 0\<rparr>
      in if old = 1 then (g', r @ [ReportGauge name tags (gauge_value g')]) else (g', r))"

definition gauge_snapshot :: "gauge \<Rightarrow> float64" where
  "gauge_snapshot g = Float64frombits (gcurr g)"

text \<open>A sequence of \<open>Inc\<close> calls on one counter, in call order.\<close>

fun incs :: "int64 list \<Rightarrow> counter \<Rightarrow> counter" where
  "incs [] c = c"
| "incs (d # ds) c = incs ds (counter_Inc d c)"

text \<open>
  The counter as the second consumption finds it: a first consumption of \<open>c0\<close>, then
  the \<open>Inc\<close> calls \<open>ds\<close>.
\<close>

definition after_first_consumption :: "counter \<Rightarrow> int64 list \<Rightarrow> counter" where
  "after_first_consumption c0 ds = incs ds (snd (counter_value c0))"

section \<open>The key codec (keymap.go)\<close>

text \<open>
  \<open>DB\<close> is a bounded pool: a buffered channel \<open>chan_values\<close> (the field
  \<open>values\<close>) of capacity \<open>capacity\<close> holding reusable objects, and the allocator
  used on a miss. The allocator of both pools of \<open>keyDB\<close> returns a fresh empty
  object, so \<open>alloc\<close> is that object. \<open>newDB\<close> makes the empty channel and
  \<open>DB_init\<close> fills it up to its capacity.
\<close>

record 'a DB =
  alloc :: 'a
  capacity :: nat
  chan_values :: "'a list"

definition newDB :: "nat \<Rightarrow> 'a \<Rightarrow> 'a DB" where
  "newDB sz a = \<lparr>alloc = a, capacity = sz, chan_values = []\<rparr>"

definition DB_init :: "'a DB \<Rightarrow> 'a DB" where
  "DB_init db = db\<lparr>chan_values := replicate (capacity db) (alloc db)\<rparr>"

text \<open>\<open>put\<close> is a non-blocking send: the object is dropped when the channel is full.\<close>

definition DB_put :: "'a \<Rightarrow> 'a DB \<Rightarrow> 'a DB" where
  "DB_put obj db =
     (if length (chan_values db) < capacity db
      then db\<lparr>chan_values := chan_values db @ [obj]\<rparr> else db)"

text \<open>\<open>get\<close> is a non-blocking receive: a miss allocates.\<close>

definition DB_get :: "'a DB \<Rightarrow> 'a \<times> 'a DB" where
  "DB_get db =
     (case chan_values db of
        [] \<Rightarrow> (alloc db, db)
      | v # vs \<Rightarrow> (v, db\<lparr>chan_values := vs\<rparr>))"

definition nameSplitter :: char where
  "nameSplitter = CHR ''=''"

definition pairSplitter :: char where
  "pairSplitter = CHR '',''"

definition prefixSplitter :: char where
  "prefixSplitter = CHR ''+''"

definition emptyString :: string where
  "emptyString = []"

text \<open>
  \<open>bufferDB\<close> pools \<open>bytes.Buffer\<close> objects (their contents), \<open>stringsDB\<close> pools
  \<open>[]string\<close> slices (their visible elements).
\<close>

record itemDB =
  bufferDB :: "string DB"
  stringsDB :: "string list DB"

definition newKeyDB :: "nat \<Rightarrow> nat \<Rightarrow> nat \<Rightarrow> itemDB" where
  "newKeyDB sz blen slen =
     \<lparr>bufferDB = DB_init (newDB sz []), stringsDB = DB_init (newDB sz [])\<rparr>"

definition keyDB :: itemDB where
  "keyDB = newKeyDB 512 512 64"

text \<open>
  \<open>release\<close>: reset the buffer and return it to its pool, overwrite every element of the
  key slice with the empty string and return the slice, cut to length 0, to its pool.
\<close>

definition release :: "itemDB \<Rightarrow> string \<Rightarrow> string list \<Rightarrow> itemDB" where
  "release s b strs =
     (let b' = [];
          s1 = s\<lparr>bufferDB := DB_put b' (bufferDB s)\<rparr>;
          strs' = map (\<lambda>_. emptyString) strs
      in s1\<lparr>stringsDB := DB_put (take 0 strs') (stringsDB s1)\<rparr>)"

text \<open>
  The loop of \<open>KeyMap\<close> over \<open>i = 0, \<dots>, sortedKeysLen - 1\<close>, appending to the buffer.
\<close>

function write_pairs :: "gomap \<Rightarrow> string list \<Rightarrow> nat \<Rightarrow> nat \<Rightarrow> string \<Rightarrow> string" where
  "write_pairs stringMap keys sortedKeysLen i buf =
     (if i < sortedKeysLen then
        write_pairs stringMap keys sortedKeysLen (Suc i)
          (buf @ keys ! i @ [nameSplitter] @ index_map stringMap (keys ! i)
               @ (if i \<noteq> sortedKeysLen - 1 then [pairSplitter] else []))
      else buf)"
  by pat_completeness auto
termination
  by (relation "measure (\<lambda>(m, keys, n, i, buf). n - i)") auto

declare write_pairs.simps [simp del]

text \<open>
  \<open>KeyMap\<close> with the package-level pool \<open>keyDB\<close> passed in and returned. The index
  \<open>keys[i]\<close> is always in range: the slice holds at least \<open>len(stringMap)\<close> elements.
\<close>

definition KeyMap :: "itemDB \<Rightarrow> string \<Rightarrow> gomap \<Rightarrow> string \<times> itemDB" where
  "KeyMap kdb prefix stringMap =
     (let (keys0, sdb) = DB_get (stringsDB kdb);
          keys1 = keys0 @ map fst (entries stringMap);
          keys = sort keys1;
          (buf0, bdb) = DB_get (bufferDB kdb);
          buf1 = (if prefix \<noteq> emptyString then buf0 @ prefix @ [prefixSplitter] else buf0);
          sortedKeysLen = len_map stringMap;
          buf = write_pairs stringMap keys sortedKeysLen 0 buf1;
          key = buf
      in (key, release \<lparr>bufferDB = bdb, stringsDB = sdb\<rparr> buf keys))"

text \<open>
  The pool holds only fully reset objects: empty buffers and key slices of length 0.
\<close>

definition pool_inv :: "itemDB \<Rightarrow> bool" where
  "pool_inv kdb \<longleftrightarrow>
     alloc (bufferDB kdb) = [] \<and> list_all (\<lambda>b. b = []) (chan_values (bufferDB kdb)) \<and>
     alloc (stringsDB kdb) = [] \<and> list_all (\<lambda>ks. ks = []) (chan_values (stringsDB kdb))"

text \<open>
  The algorithm in the words of the specification: sort the tag keys, write the prefix
  and the prefix separator when the prefix is non-empty, then the \<open>key=value\<close> pairs
  joined by the pair separator, in sorted-key order.
\<close>

fun join :: "char \<Rightarrow> string list \<Rightarrow> string" where
  "join sep [] = []"
| "join sep [x] = x"
| "join sep (x # y # ys) = x @ [sep] @ join sep (y # ys)"

definition Identity_spec :: "string \<Rightarrow> (string \<times> string) list \<Rightarrow> string" where
  "Identity_spec prefix tags =
     (if prefix = [] then [] else prefix @ ''+'')
     @ join (CHR '','')
         (map (\<lambda>k. k @ ''='' @ (case map_of tags k of None \<Rightarrow> [] | Some v \<Rightarrow> v))
              (sort (map fst tags)))"

text \<open>The expected alphabet: no tag key or value contains a reserved separator.\<close>

definition reserved :: "char set" where
  "reserved = {nameSplitter, pairSplitter, prefixSplitter}"

definition str_ok :: "string \<Rightarrow> bool" where
  "str_ok s \<longleftrightarrow> list_all (\<lambda>c. c \<notin> reserved) s"

definition alphabet_ok :: "gomap \<Rightarrow> bool" where
  "alphabet_ok m \<longleftrightarrow> list_all (\<lambda>(k, v). str_ok k \<and> str_ok v) (entries m)"

text \<open>One \<open>key=value\<close> pair as the loop writes it.\<close>

definition pair_str :: "gomap \<Rightarrow> string \<Rightarrow> string" where
  "pair_str m k = k @ [nameSplitter] @ index_map m k"

text \<open>The pairs of a map in the order \<open>KeyMap\<close> writes them, and one pair as text.\<close>

definition pairs_of :: "gomap \<Rightarrow> (string \<times> string) list" where
  "pairs_of m = map (\<lambda>k. (k, index_map m k)) (sort (map fst (entries m)))"

definition kv_str :: "string \<times> string \<Rightarrow> string" where
  "kv_str p = fst p @ [nameSplitter] @ snd p"

definition kv_ok :: "string \<times> string \<Rightarrow> bool" where
  "kv_ok p \<longleftrightarrow>
     nameSplitter \<notin> set (fst p) \<and> pairSplitter \<notin> set (fst p) \<and> pairSplitter \<notin> set (snd p)"

section \<open>Scopes, the registry and the report loop\<close>

text \<open>
  A channel that is only ever closed (\<open>status.quit\<close>): \<open>nil\<close>, open, or closed.
  Closing a \<open>nil\<close> or a closed channel panics.
\<close>

datatype chan = ChanNil | ChanOpen | ChanClosed

datatype panic = CloseOfNilChannel | CloseOfClosedChannel

definition close_chan :: "chan \<Rightarrow> panic + chan" where
  "close_chan c =
     (case c of
        ChanNil \<Rightarrow> Inl CloseOfNilChannel
      | ChanOpen \<Rightarrow> Inr ChanClosed
      | ChanClosed \<Rightarrow> Inl CloseOfClosedChannel)"

record scopeStatus =
  closed :: bool
  quit :: chan

text \<open>
  The injected reporter object: whether it also implements \<open>io.Closer\<close>, and what its
  \<open>Close\<close> returns. The calls it receives are recorded in the state.
\<close>

record reporter_impl =
  is_closer :: bool
  close_result :: "string option"

text \<open>
  A scope. Its counters and gauges are the maps \<open>name \<rightarrow> *counter\<close> and
  \<open>name \<rightarrow> *gauge\<close>; every counter and gauge object belongs to exactly one such
  map, so the objects are kept in the map. The pointer \<open>registry\<close> is the same for all
  scopes of one tree and is the registry of the state below.
\<close>

record scope =
  prefix :: string
  reporter :: "reporter_impl option"
  separator :: string
  tags :: gomap
  status :: scopeStatus
  counters :: "(string \<times> counter) list"
  gauges :: "(string \<times> gauge) list"

record ScopeOptions =
  Tags :: gomap
  Prefix :: string
  Reporter :: "reporter_impl option"
  Separator :: string

text \<open>
  The state of one scope tree: the heap of scope objects (a \<open>*scope\<close> is an index into
  \<open>scopes\<close>), the registry map \<open>subscopes\<close> from key to scope pointer, the calls the
  reporter has received, and the package-level pool \<open>keyDB\<close>.
\<close>

record state =
  scopes :: "scope list"
  subscopes :: "(string \<times> nat) list"
  calls :: StatsReporter
  keydb :: itemDB

definition DefaultSeparator :: string where
  "DefaultSeparator = ''.''"

text \<open>\<open>m[k] = v\<close> on a map under construction.\<close>

definition map_store :: "(string \<times> 'v) \<Rightarrow> (string \<times> 'v) list \<Rightarrow> (string \<times> 'v) list" where
  "map_store kv al = AList.update (fst kv) (snd kv) al"

definition copyMap :: "gomap \<Rightarrow> gomap" where
  "copyMap tgs = Some (fold map_store (entries tgs) [])"

definition mergeRightTags :: "gomap \<Rightarrow> gomap \<Rightarrow> gomap" where
  "mergeRightTags tagsLeft tagsRight =
     (if tagsLeft = None \<and> tagsRight = None then None
      else if len_map tagsRight = 0 then tagsLeft
      else if len_map tagsLeft = 0 then tagsRight
      else Some (fold map_store (entries tagsRight) (fold map_store (entries tagsLeft) [])))"

definition fullyQualifiedName :: "scope \<Rightarrow> string \<Rightarrow> string" where
  "fullyQualifiedName s nm =
     (if length (prefix s) = 0 then nm else prefix s @ separator s @ nm)"

text \<open>
  \<open>newRootScope\<close>. The goroutine started for a positive interval runs \<open>reportLoop\<close>,
  whose iterations are \<open>reportLoop_iter\<close> below.
\<close>

definition newRootScope :: "ScopeOptions \<Rightarrow> int \<Rightarrow> itemDB \<Rightarrow> state" where
  "newRootScope opts reportInterval kdb =
     (let opts1 = (if Tags opts = None then opts\<lparr>Tags := Some []\<rparr> else opts);
          opts2 = (if Separator opts1 = [] then opts1\<lparr>Separator := DefaultSeparator\<rparr>
                   else opts1);
          s = \<lparr>prefix = Prefix opts2, reporter = Reporter opts2,
               separator = Separator opts2, tags = None,
               status = \<lparr>closed = False, quit = ChanOpen\<rparr>,
               counters = [], gauges = []\<rparr>;
          s1 = s\<lparr>tags := copyMap (Tags opts2)\<rparr>;
          (key, kdb') = KeyMap kdb (prefix s1) (tags s1)
      in \<lparr>scopes = [s1], subscopes = map_store (key, 0) [], calls = [], keydb = kdb'\<rparr>)"

text \<open>The two loops of \<open>scope.report\<close> over the counters and the gauges of a scope.\<close>

fun report_counters ::
  "scope \<Rightarrow> (string \<times> counter) list \<Rightarrow> StatsReporter
     \<Rightarrow> (string \<times> counter) list \<times> StatsReporter" where
  "report_counters s [] r = ([], r)"
| "report_counters s ((nm, c) # cs) r =
     (let (c', r1) = counter_report (fullyQualifiedName s nm) (tags s) r c;
          (cs', r2) = report_counters s cs r1
      in ((nm, c') # cs', r2))"

fun report_gauges ::
  "scope \<Rightarrow> (string \<times> gauge) list \<Rightarrow> StatsReporter
     \<Rightarrow> (string \<times> gauge) list \<times> StatsReporter" where
  "report_gauges s [] r = ([], r)"
| "report_gauges s ((nm, g) # gs) r =
     (let (g', r1) = gauge_report (fullyQualifiedName s nm) (tags s) r g;
          (gs', r2) = report_gauges s gs r1
      in ((nm, g') # gs', r2))"

definition scope_report :: "scope \<Rightarrow> StatsReporter \<Rightarrow> scope \<times> StatsReporter" where
  "scope_report s r =
     (let (cs', r1) = report_counters s (counters s) r;
          (gs', r2) = report_gauges s (gauges s) r1
      in (s\<lparr>counters := cs', gauges := gs'\<rparr>, r2 @ [Flush]))"

text \<open>The loop of \<open>reportRegistryWithLock\<close> over the scopes of the registry.\<close>

fun report_all :: "nat list \<Rightarrow> scope list \<Rightarrow> StatsReporter \<Rightarrow> scope list \<times> StatsReporter" where
  "report_all [] ss r = (ss, r)"
| "report_all (a # as) ss r =
     (let (s', r1) = scope_report (ss ! a) r
      in report_all as (ss[a := s']) r1)"

definition reportRegistryWithLock :: "state \<Rightarrow> nat \<Rightarrow> state" where
  "reportRegistryWithLock st a =
     (if reporter (scopes st ! a) \<noteq> None then
        (let (ss', r') = report_all (map snd (subscopes st)) (scopes st) (calls st)
         in st\<lparr>scopes := ss', calls := r'\<rparr>)
      else st)"

definition reportLoopRun :: "state \<Rightarrow> nat \<Rightarrow> state" where
  "reportLoopRun st a =
     (if closed (status (scopes st ! a)) then st else reportRegistryWithLock st a)"

definition Report :: "state \<Rightarrow> nat \<Rightarrow> state" where
  "Report st a = reportLoopRun st a"

text \<open>
  One iteration of the \<open>for\<close> loop of \<open>reportLoop\<close>: \<open>select\<close> takes the ticker case or
  the quit case. The quit case is ready only once the channel is closed, and then the
  loop returns (\<open>False\<close>: no further iteration). \<open>None\<close>: the chosen case is not ready.
\<close>

datatype select_case = CaseTicker | CaseQuit

definition reportLoop_iter :: "select_case \<Rightarrow> state \<Rightarrow> nat \<Rightarrow> (bool \<times> state) option" where
  "reportLoop_iter sel st a =
     (case sel of
        CaseTicker \<Rightarrow> Some (True, reportLoopRun st a)
      | CaseQuit \<Rightarrow>
          (if quit (status (scopes st ! a)) = ChanClosed then Some (False, st) else None))"

definition set_status :: "state \<Rightarrow> nat \<Rightarrow> scopeStatus \<Rightarrow> state" where
  "set_status st a x = st\<lparr>scopes := (scopes st)[a := (scopes st ! a)\<lparr>status := x\<rparr>]\<rparr>"

text \<open>\<open>Close\<close>: a panic, or the returned error (\<open>None\<close> is \<open>nil\<close>) and the new state.\<close>

definition Close :: "state \<Rightarrow> nat \<Rightarrow> panic + (string option \<times> state)" where
  "Close st a =
     (if closed (status (scopes st ! a)) then Inr (None, st)
      else
        (let st1 = set_status st a ((status (scopes st ! a))\<lparr>closed := True\<rparr>)
         in case close_chan (quit (status (scopes st1 ! a))) of
              Inl p \<Rightarrow> Inl p
            | Inr q \<Rightarrow>
                (let st2 = set_status st1 a ((status (scopes st1 ! a))\<lparr>quit := q\<rparr>);
                     st3 = reportRegistryWithLock st2 a
                 in case reporter (scopes st3 ! a) of
                      None \<Rightarrow> Inr (None, st3)
                    | Some rep \<Rightarrow>
                        (if is_closer rep
                         then Inr (close_result rep, st3\<lparr>calls := calls st3 @ [CloseReporter]\<rparr>)
                         else Inr (None, st3)))))"

text \<open>Scope derivation.\<close>

definition newSubscope :: "state \<Rightarrow> nat \<Rightarrow> string \<Rightarrow> gomap \<Rightarrow> string \<Rightarrow> nat \<times> state" where
  "newSubscope st a pfx immutableTags key =
     (case map_of (subscopes st) key of
        Some existing \<Rightarrow> (existing, st)
      | None \<Rightarrow>
          (let s = scopes st ! a;
               subscope = \<lparr>prefix = pfx, reporter = reporter s, separator = separator s,
                           tags = immutableTags,
                           status = \<lparr>closed = False, quit = ChanNil\<rparr>,
                           counters = [], gauges = []\<rparr>;
               ptr = length (scopes st)
           in (ptr, st\<lparr>scopes := scopes st @ [subscope],
                        subscopes := map_store (key, ptr) (subscopes st)\<rparr>)))"

definition subscope :: "state \<Rightarrow> nat \<Rightarrow> string \<Rightarrow> gomap \<Rightarrow> nat \<times> state" where
  "subscope st a pfx immutableTags0 =
     (let immutableTags = mergeRightTags (tags (scopes st ! a)) immutableTags0;
          (key, kdb') = KeyMap (keydb st) pfx immutableTags;
          st1 = st\<lparr>keydb := kdb'\<rparr>
      in case map_of (subscopes st1) key of
           None \<Rightarrow> newSubscope st1 a pfx immutableTags key
         | Some existing \<Rightarrow> (existing, st1))"

definition Tagged :: "state \<Rightarrow> nat \<Rightarrow> gomap \<Rightarrow> nat \<times> state" where
  "Tagged st a tgs = subscope st a (prefix (scopes st ! a)) (copyMap tgs)"

definition SubScope :: "state \<Rightarrow> nat \<Rightarrow> string \<Rightarrow> nat \<times> state" where
  "SubScope st a pfx = subscope st a (fullyQualifiedName (scopes st ! a) pfx) None"

text \<open>
  \<open>Counter(name)\<close> and \<open>Gauge(name)\<close> create the metric on first use; the handle they
  return is the pair of scope pointer and name, through which \<open>Inc\<close> and \<open>Update\<close> act.
\<close>

definition scope_Counter :: "state \<Rightarrow> nat \<Rightarrow> string \<Rightarrow> state" where
  "scope_Counter st a nm =
     (let s = scopes st ! a
      in case map_of (counters s) nm of
           Some val \<Rightarrow> st
         | None \<Rightarrow>
             st\<lparr>scopes := (scopes st)[a := s\<lparr>counters := map_store (nm, newCounter) (counters s)\<rparr>]\<rparr>)"

definition scope_Gauge :: "state \<Rightarrow> nat \<Rightarrow> string \<Rightarrow> state" where
  "scope_Gauge st a nm =
     (let s = scopes st ! a
      in case map_of (gauges s) nm of
           Some val \<Rightarrow> st
         | None \<Rightarrow>
             st\<lparr>scopes := (scopes st)[a := s\<lparr>gauges := map_store (nm, newGauge) (gauges s)\<rparr>]\<rparr>)"

definition handle_Inc :: "state \<Rightarrow> nat \<Rightarrow> string \<Rightarrow> int64 \<Rightarrow> state" where
  "handle_Inc st a nm v =
     (let s = scopes st ! a
      in st\<lparr>scopes := (scopes st)[a := s\<lparr>counters :=
              map (\<lambda>(n, c). if n = nm then (n, counter_Inc v c) else (n, c)) (counters s)\<rparr>]\<rparr>)"

definition handle_Update :: "state \<Rightarrow> nat \<Rightarrow> string \<Rightarrow> float64 \<Rightarrow> state" where
  "handle_Update st a nm v =
     (let s = scopes st ! a
      in st\<lparr>scopes := (scopes st)[a := s\<lparr>gauges :=
              map (\<lambda>(n, g). if n = nm then (n, gauge_Update v g) else (n, g)) (gauges s)\<rparr>]\<rparr>)"

text \<open>Snapshots.\<close>

record counterSnapshot =
  cs_name :: string
  cs_tags :: gomap
  cs_value :: int64

record gaugeSnapshot =
  gs_name :: string
  gs_tags :: gomap
  gs_value :: float64

record snapshot =
  snap_counters :: "(string \<times> counterSnapshot) list"
  snap_gauges :: "(string \<times> gaugeSnapshot) list"

definition newSnapshot :: snapshot where
  "newSnapshot = \<lparr>snap_counters = [], snap_gauges = []\<rparr>"

fun snapshot_counters ::
  "scope \<Rightarrow> gomap \<Rightarrow> (string \<times> counter) list \<Rightarrow> snapshot \<times> itemDB \<Rightarrow> snapshot \<times> itemDB" where
  "snapshot_counters ss tgs [] (snap, kdb) = (snap, kdb)"
| "snapshot_counters ss tgs ((key, c) # cs) (snap, kdb) =
     (let nm = fullyQualifiedName ss key;
          (ident, kdb') = KeyMap kdb nm tgs;
          snap' = snap\<lparr>snap_counters :=
                    map_store (ident, \<lparr>cs_name = nm, cs_tags = tgs, cs_value = counter_snapshot c\<rparr>)
                      (snap_counters snap)\<rparr>
      in snapshot_counters ss tgs cs (snap', kdb'))"

fun snapshot_gauges ::
  "scope \<Rightarrow> gomap \<Rightarrow> (string \<times> gauge) list \<Rightarrow> snapshot \<times> itemDB \<Rightarrow> snapshot \<times> itemDB" where
  "snapshot_gauges ss tgs [] (snap, kdb) = (snap, kdb)"
| "snapshot_gauges ss tgs ((key, g) # gs) (snap, kdb) =
     (let nm = fullyQualifiedName ss key;
          (ident, kdb') = KeyMap kdb nm tgs;
          snap' = snap\<lparr>snap_gauges :=
                    map_store (ident, \<lparr>gs_name = nm, gs_tags = tgs, gs_value = gauge_snapshot g\<rparr>)
                      (snap_gauges snap)\<rparr>
      in snapshot_gauges ss tgs gs (snap', kdb'))"

fun snapshot_scopes :: "scope list \<Rightarrow> nat list \<Rightarrow> snapshot \<times> itemDB \<Rightarrow> snapshot \<times> itemDB" where
  "snapshot_scopes scs [] acc = acc"
| "snapshot_scopes scs (a # as) acc =
     (let ss = scs ! a;
          tgs = Some (fold map_store (entries (tags ss)) []);
          acc1 = snapshot_counters ss tgs (counters ss) acc;
          acc2 = snapshot_gauges ss tgs (gauges ss) acc1
      in snapshot_scopes scs as acc2)"

definition Snapshot :: "state \<Rightarrow> nat \<Rightarrow> snapshot \<times> state" where
  "Snapshot st a =
     (let (snap, kdb') =
            snapshot_scopes (scopes st) (map snd (subscopes st)) (newSnapshot, keydb st)
      in (snap, st\<lparr>keydb := kdb'\<rparr>))"

text \<open>Calls other than \<open>Flush\<close>.\<close>

definition no_flush :: "event list \<Rightarrow> bool" where
  "no_flush evs \<longleftrightarrow> Flush \<notin> set evs"

text \<open>
  Sequences of \<open>Report()\<close> calls and loop iterations on one scope. An iteration whose
  \<open>select\<close> case is not ready does not happen.
\<close>

datatype op = OpReport | OpTick select_case

fun exec_op :: "nat \<Rightarrow> op \<Rightarrow> state \<Rightarrow> state" where
  "exec_op a OpReport st = Report st a"
| "exec_op a (OpTick sel) st =
     (case reportLoop_iter sel st a of None \<Rightarrow> st | Some (b, st') \<Rightarrow> st')"

fun exec_ops :: "nat \<Rightarrow> op list \<Rightarrow> state \<Rightarrow> state" where
  "exec_ops a [] st = st"
| "exec_ops a (x # xs) st = exec_ops a xs (exec_op a x st)"

text \<open>The calls the reporter received between two states.\<close>

definition pass_calls :: "state \<Rightarrow> state \<Rightarrow> event list" where
  "pass_calls st st' = drop (length (calls st)) (calls st')"

text \<open>A running root scope with a plain reporter, and the same tree with one child.\<close>

definition demo_reporter :: reporter_impl where
  "demo_reporter = \<lparr>is_closer = False, close_result = None\<rparr>"

definition demo_root :: state where
  "demo_root =
     newRootScope \<lparr>Tags = None, Prefix = [], Reporter = Some demo_reporter, Separator = []\<rparr>
       10 keyDB"

definition demo_tree :: state where
  "demo_tree = snd (SubScope demo_root 0 ''x'')"

text \<open>
  The state in which the final pass of \<open>Close\<close> runs, and what the \<open>io.Closer\<close> branch
  at the end of \<open>Close\<close> calls and returns.
\<close>

definition closing :: "state \<Rightarrow> nat \<Rightarrow> state" where
  "closing st a = set_status st a \<lparr>closed = True, quit = ChanClosed\<rparr>"

definition closer_calls :: "reporter_impl option \<Rightarrow> event list" where
  "closer_calls rep = (case rep of None \<Rightarrow> [] | Some x \<Rightarrow> if is_closer x then [CloseReporter] else [])"

definition closer_result :: "reporter_impl option \<Rightarrow> string option" where
  "closer_result rep = (case rep of None \<Rightarrow> None | Some x \<Rightarrow> if is_closer x then close_result x else None)"

text \<open>
  The root scope after \<open>Counter("PollCount").Inc(1)\<close> three times, and then after
  \<open>Close()\<close>.
\<close>

definition demo_polled :: state where
  "demo_polled =
     handle_Inc (handle_Inc (handle_Inc (scope_Counter demo_root 0 ''PollCount'')
       0 ''PollCount'' 1) 0 ''PollCount'' 1) 0 ''PollCount'' 1"

definition demo_closed :: state where
  "demo_closed = snd (projr (Close demo_polled 0))"

text \<open>
  The tree of a root and one child after \<open>Close()\<close> on the root, and then after the child's
  counter has been created and incremented by 4.
\<close>

definition demo_tree_closed :: state where
  "demo_tree_closed = snd (projr (Close demo_tree 0))"

definition demo_child_pending :: state where
  "demo_child_pending =
     handle_Inc (scope_Counter demo_tree_closed 1 ''PollCount'') 1 ''PollCount'' 4"

definition key_of :: "scope \<Rightarrow> string" where
  "key_of s = Identity_spec (prefix s) (entries (tags s))"

definition wf_state :: "state \<Rightarrow> bool" where
  "wf_state st \<longleftrightarrow>
     pool_inv (keydb st) \<and> scopes st \<noteq> [] \<and> distinct (map fst (subscopes st)) \<and>
     list_all (\<lambda>(k, p). p < length (scopes st) \<and> k = key_of (scopes st ! p)) (subscopes st) \<and>
     list_all (\<lambda>p. map_of (subscopes st) (key_of (scopes st ! p)) = Some p)
       [0..<length (scopes st)] \<and>
     list_all (\<lambda>s. wf_map (tags s)) (scopes st)"

text \<open>What \<open>subscope\<close> returns, with the key computed by the specification algorithm.\<close>

definition derived_key :: "state \<Rightarrow> nat \<Rightarrow> string \<Rightarrow> gomap \<Rightarrow> string" where
  "derived_key st a pfx t0 =
     Identity_spec pfx (entries (mergeRightTags (tags (scopes st ! a)) t0))"

text \<open>
  Concurrent consumption. Two goroutines each run the counter part of \<open>scope.report\<close> on
  the same counter: \<open>s.cm.Lock()\<close>, then \<open>counter.value()\<close> as its atomic operations in
  program order (load \<open>curr\<close>, load \<open>prev\<close>, compare, store \<open>prev\<close>), then
  \<open>s.cm.Unlock()\<close>. Producers call \<open>Inc\<close> (one atomic add) at any time. The atomic
  operations and the mutex are sequentially consistent, so an execution is an interleaving
  of these steps. A consumer is named by a \<open>bool\<close>; \<open>ret\<close> is the delta its \<open>value()\<close>
  returns, \<open>incd\<close> records the sum of the deltas of the \<open>Inc\<close> calls made so far.
\<close>

datatype pc = AtLock | AtLoadCurr | AtLoadPrev | AtCompare | AtStore | AtUnlock | AtDone

record consumer =
  pc :: pc
  l_curr :: int64
  l_prev :: int64
  ret :: int64

record conf =
  shared :: counter
  cm_holder :: "bool option"
  cons :: "bool \<Rightarrow> consumer"
  incd :: int64

definition set_cons :: "conf \<Rightarrow> bool \<Rightarrow> consumer \<Rightarrow> conf" where
  "set_cons s t x = s\<lparr>cons := (cons s)(t := x)\<rparr>"

text \<open>One step of consumer \<open>t\<close>; \<open>None\<close> when it is blocked on the mutex or has returned.\<close>

definition consumer_step :: "bool \<Rightarrow> conf \<Rightarrow> conf option" where
  "consumer_step t s =
     (let x = cons s t in
      case pc x of
        AtLock \<Rightarrow>
          (if cm_holder s = None
           then Some ((set_cons s t (x\<lparr>pc := AtLoadCurr\<rparr>))\<lparr>cm_holder := Some t\<rparr>)
           else None)
      | AtLoadCurr \<Rightarrow> Some (set_cons s t (x\<lparr>l_curr := curr (shared s), pc := AtLoadPrev\<rparr>))
      | AtLoadPrev \<Rightarrow> Some (set_cons s t (x\<lparr>l_prev := prev (shared s), pc := AtCompare\<rparr>))
      | AtCompare \<Rightarrow>
          (if l_prev x = l_curr x
           then Some (set_cons s t (x\<lparr>ret := 0, pc := AtUnlock\<rparr>))
           else Some (set_cons s t (x\<lparr>pc := AtStore\<rparr>)))
      | AtStore \<Rightarrow>
          Some ((set_cons s t (x\<lparr>ret := l_curr x - l_prev x, pc := AtUnlock\<rparr>))
                  \<lparr>shared := (shared s)\<lparr>prev := l_curr x\<rparr>\<rparr>)
      | AtUnlock \<Rightarrow> Some ((set_cons s t (x\<lparr>pc := AtDone\<rparr>))\<lparr>cm_holder := None\<rparr>)
      | AtDone \<Rightarrow> None)"

definition inc_step :: "int64 \<Rightarrow> conf \<Rightarrow> conf" where
  "inc_step v s = s\<lparr>shared := counter_Inc v (shared s), incd := incd s + v\<rparr>"

text \<open>
  A schedule lists which consumer takes its next step and where a producer's
  \<open>Inc\<close> falls; \<open>run\<close> is \<open>None\<close> for a schedule that asks a blocked or returned consumer
  to step.
\<close>

datatype action = Run bool | IncBy int64

fun is_run :: "action \<Rightarrow> bool" where
  "is_run (Run t) = True"
| "is_run (IncBy v) = False"

fun do_action :: "action \<Rightarrow> conf \<Rightarrow> conf option" where
  "do_action (Run t) s = consumer_step t s"
| "do_action (IncBy v) s = Some (inc_step v s)"

fun run :: "action list \<Rightarrow> conf \<Rightarrow> conf option" where
  "run [] s = Some s"
| "run (a # as) s = (case do_action a s of None \<Rightarrow> None | Some s' \<Rightarrow> run as s')"

text \<open>
  Both consumers at the same program point: \<open>AtLock\<close> for the code as written,
  \<open>AtLoadCurr\<close> for \<open>value()\<close> called without the mutex.
\<close>

definition start :: "pc \<Rightarrow> counter \<Rightarrow> conf" where
  "start p c =
     \<lparr>shared = c, cm_holder = None,
      cons = (\<lambda>t. \<lparr>pc = p, l_curr = 0, l_prev = 0, ret = 0\<rparr>), incd = 0\<rparr>"

definition finished :: "conf \<Rightarrow> bool" where
  "finished s \<longleftrightarrow> pc (cons s True) = AtDone \<and> pc (cons s False) = AtDone"

text \<open>The invariants of the interleavings.\<close>

definition in_cs :: "pc \<Rightarrow> bool" where
  "in_cs p \<longleftrightarrow> p = AtLoadCurr \<or> p = AtLoadPrev \<or> p = AtCompare \<or> p = AtStore \<or> p = AtUnlock"

definition not_returned :: "pc \<Rightarrow> bool" where
  "not_returned p \<longleftrightarrow> p \<noteq> AtUnlock \<and> p \<noteq> AtDone"

definition thread_inv :: "conf \<Rightarrow> bool \<Rightarrow> bool" where
  "thread_inv s t \<longleftrightarrow>
     (in_cs (pc (cons s t)) \<longleftrightarrow> cm_holder s = Some t) \<and>
     (pc (cons s t) = AtCompare \<or> pc (cons s t) = AtStore \<longrightarrow>
        l_prev (cons s t) = prev (shared s)) \<and>
     (pc (cons s t) = AtStore \<longrightarrow> l_prev (cons s t) \<noteq> l_curr (cons s t)) \<and>
     (not_returned (pc (cons s t)) \<longrightarrow> ret (cons s t) = 0)"

definition cs_inv :: "counter \<Rightarrow> conf \<Rightarrow> bool" where
  "cs_inv c s \<longleftrightarrow>
     thread_inv s True \<and> thread_inv s False \<and>
     prev c + (ret (cons s True) + ret (cons s False)) = prev (shared s) \<and>
     curr c + incd s = curr (shared s)"

definition thread_quiet :: "counter \<Rightarrow> conf \<Rightarrow> bool \<Rightarrow> bool" where
  "thread_quiet c s t \<longleftrightarrow>
     (pc (cons s t) = AtLoadPrev \<or> pc (cons s t) = AtCompare \<or> pc (cons s t) = AtStore \<longrightarrow>
        l_curr (cons s t) = curr c) \<and>
     (\<not> not_returned (pc (cons s t)) \<longrightarrow> prev (shared s) = curr c)"

definition quiet_inv :: "counter \<Rightarrow> conf \<Rightarrow> bool" where
  "quiet_inv c s \<longleftrightarrow>
     cs_inv c s \<and> incd s = 0 \<and> thread_quiet c s True \<and> thread_quiet c s False \<and>
     (ret (cons s True) = 0 \<or> ret (cons s False) = 0)"

text \<open>Three schedules: one after the other, with producers in between, and a race.\<close>

definition demo_seq :: "action list" where
  "demo_seq = replicate 6 (Run True) @ replicate 5 (Run False)"

definition demo_mixed :: "action list" where
  "demo_mixed =
     [Run False, Run False, IncBy 2, Run False, Run False, Run False, Run False,
      Run True, IncBy 1, Run True, Run True, Run True, Run True, Run True]"

definition demo_race :: "action list" where
  "demo_race =
     [Run True, Run False, Run True, Run False, Run True, Run False, Run True, Run False,
      Run True, Run False]"

definition outcome :: "conf option \<Rightarrow> (int64 \<times> int64 \<times> bool) option" where
  "outcome r = map_option (\<lambda>s. (ret (cons s True), ret (cons s False), finished s)) r"

section \<open>Counter and gauge lemmas\<close>

lemma incs_curr: "curr (incs ds c) = curr c + sum_list ds"
  by (induction ds arbitrary: c) (simp_all add: counter_Inc_def add.assoc)

lemma incs_prev: "prev (incs ds c) = prev c"
  by (induction ds arbitrary: c) (simp_all add: counter_Inc_def)

lemma counter_value_baseline:
  "prev (snd (counter_value c)) = curr c \<and> curr (snd (counter_value c)) = curr c"
  by (simp add: counter_value_def Let_def)

lemma counter_value_delta: "fst (counter_value c) = curr c - prev c"
  by (simp add: counter_value_def Let_def)

lemma sint_sum_list:
  "sint (sum_list ds :: int64) = signed_take_bit 63 (\<Sum>d\<leftarrow>ds. sint d)"
proof (induction ds)
  case Nil
  show ?case by simp
next
  case (Cons d ds)
  have "sint (d + sum_list ds) = signed_take_bit 63 (sint d + sint (sum_list ds))"
    by (simp add: sint_word_ariths)
  also have "\<dots> = signed_take_bit 63 (sint d + signed_take_bit 63 (\<Sum>x\<leftarrow>ds. sint x))"
    by (simp only: Cons.IH)
  also have "\<dots> = signed_take_bit 63
      (signed_take_bit 63 (sint d) + signed_take_bit 63 (signed_take_bit 63 (\<Sum>x\<leftarrow>ds. sint x)))"
    by (simp only: signed_take_bit_add)
  also have "\<dots> = signed_take_bit 63
      (signed_take_bit 63 (sint d) + signed_take_bit 63 (\<Sum>x\<leftarrow>ds. sint x))"
    by (simp only: signed_take_bit_signed_take_bit min.idem)
  also have "\<dots> = signed_take_bit 63 (sint d + (\<Sum>x\<leftarrow>ds. sint x))"
    by (simp only: signed_take_bit_add)
  finally show ?case by simp
qed

lemma sint_sum_list_exact:
  assumes "- (2 ^ 63) \<le> (\<Sum>d\<leftarrow>ds. sint d)" and "(\<Sum>d\<leftarrow>ds. sint d) < 2 ^ 63"
  shows "sint (sum_list ds :: int64) = (\<Sum>d\<leftarrow>ds. sint d)"
  unfolding sint_sum_list using assms
  by (simp add: signed_take_bit_int_eq_self)

lemma after_first_consumption_fields:
  "prev (after_first_consumption c0 ds) = curr c0"
  "curr (after_first_consumption c0 ds) = curr c0 + sum_list ds"
  by (simp_all add: after_first_consumption_def incs_prev incs_curr counter_value_baseline)

lemma second_consumption_delta:
  "fst (counter_value (after_first_consumption c0 ds)) = sum_list ds"
  by (simp add: counter_value_delta after_first_consumption_fields)

lemma counter_value_twice: "fst (counter_value (snd (counter_value c))) = 0"
  by (simp add: counter_value_delta counter_value_baseline)

lemma counter_report_zero:
  "fst (counter_value c) = 0 \<Longrightarrow> snd (counter_report nm tgs r c) = r"
  by (cases "counter_value c") (simp add: counter_report_def)

lemma counter_report_nonzero:
  "fst (counter_value c) \<noteq> 0 \<Longrightarrow>
   snd (counter_report nm tgs r c) = r @ [ReportCounter nm tgs (fst (counter_value c))]"
  by (cases "counter_value c") (simp add: counter_report_def)

lemma counter_report_counter: "fst (counter_report nm tgs r c) = snd (counter_value c)"
  by (cases "counter_value c") (simp add: counter_report_def)

section \<open>Key codec lemmas\<close>

lemma write_pairs_done: "n \<le> i \<Longrightarrow> write_pairs m keys n i buf = buf"
  by (subst write_pairs.simps) simp

lemma write_pairs_join:
  "i \<le> length keys \<Longrightarrow>
   write_pairs m keys (length keys) i buf
     = buf @ join pairSplitter (map (pair_str m) (drop i keys))"
proof (induction "length keys - i" arbitrary: i buf)
  case 0
  then show ?case by (simp add: write_pairs.simps)
next
  case (Suc n)
  then have lt: "i < length keys" by simp
  have d: "drop i keys = keys ! i # drop (Suc i) keys"
    using lt by (simp add: Cons_nth_drop_Suc)
  have IH: "write_pairs m keys (length keys) (Suc i) b
     = b @ join pairSplitter (map (pair_str m) (drop (Suc i) keys))" for b
    using Suc lt by simp
  show ?case
  proof (cases "Suc i = length keys")
    case True
    then have e: "drop (Suc i) keys = []" "i = length keys - 1" by simp_all
    show ?thesis
      using lt True by (subst write_pairs.simps) (simp add: write_pairs_done d e(1) pair_str_def)
  next
    case False
    then have "Suc i < length keys" using lt by simp
    then obtain y ys where dd: "drop (Suc i) keys = y # ys"
      by (cases "drop (Suc i) keys") auto
    from False lt have ne: "i \<noteq> length keys - 1" by simp
    show ?thesis
      using lt ne by (subst write_pairs.simps) (simp add: IH d dd pair_str_def)
  qed
qed

lemma DB_get_inv:
  "pool_inv kdb \<Longrightarrow> fst (DB_get (stringsDB kdb)) = [] \<and> fst (DB_get (bufferDB kdb)) = []"
  by (auto simp: pool_inv_def DB_get_def split: list.splits)

lemma KeyMap_key:
  assumes "pool_inv kdb"
  shows "fst (KeyMap kdb pfx m)
     = (if pfx = [] then [] else pfx @ [prefixSplitter])
       @ join pairSplitter (map (pair_str m) (sort (map fst (entries m))))"
proof -
  obtain sdb where s: "DB_get (stringsDB kdb) = ([], sdb)"
    using DB_get_inv [OF assms] by (cases "DB_get (stringsDB kdb)") auto
  obtain bdb where b: "DB_get (bufferDB kdb) = ([], bdb)"
    using DB_get_inv [OF assms] by (cases "DB_get (bufferDB kdb)") auto
  have wp: "write_pairs m (sort (map fst (entries m))) (len_map m) 0 bf
     = bf @ join pairSplitter (map (pair_str m) (sort (map fst (entries m))))" for bf
    using write_pairs_join [of 0 "sort (map fst (entries m))" m bf]
    by (simp add: len_map_def)
  show ?thesis
    unfolding KeyMap_def s b Let_def prod.case
    by (simp add: wp emptyString_def)
qed

lemma DB_put_inv: "list_all P (chan_values db) \<Longrightarrow> P x \<Longrightarrow> list_all P (chan_values (DB_put x db))"
  by (simp add: DB_put_def)

lemma DB_get_inv2: "list_all P (chan_values db) \<Longrightarrow> list_all P (chan_values (snd (DB_get db)))"
  by (cases "chan_values db") (simp_all add: DB_get_def)

lemma DB_get_alloc [simp]: "alloc (snd (DB_get db)) = alloc db"
  by (simp add: DB_get_def split: list.splits)

lemma DB_put_alloc [simp]: "alloc (DB_put x db) = alloc db"
  by (simp add: DB_put_def)

lemma KeyMap_pool_inv:
  assumes "pool_inv kdb"
  shows "pool_inv (snd (KeyMap kdb pfx m))"
proof -
  obtain k0 sdb where s: "DB_get (stringsDB kdb) = (k0, sdb)"
    by (cases "DB_get (stringsDB kdb)") auto
  obtain b0 bdb where b: "DB_get (bufferDB kdb) = (b0, bdb)"
    by (cases "DB_get (bufferDB kdb)") auto
  have sdb: "alloc sdb = []" "list_all (\<lambda>ks. ks = []) (chan_values sdb)"
    using assms DB_get_inv2 [of "\<lambda>ks. ks = []" "stringsDB kdb"] DB_get_alloc [of "stringsDB kdb"]
    by (simp_all add: pool_inv_def s)
  have bdb: "alloc bdb = []" "list_all (\<lambda>ks. ks = []) (chan_values bdb)"
    using assms DB_get_inv2 [of "\<lambda>ks. ks = []" "bufferDB kdb"] DB_get_alloc [of "bufferDB kdb"]
    by (simp_all add: pool_inv_def b)
  show ?thesis
    unfolding KeyMap_def s b Let_def prod.case
    by (simp add: release_def pool_inv_def sdb bdb DB_put_inv)
qed

lemma sort_keys_eq:
  assumes "distinct (map fst a)" "distinct (map fst b)" "map_of a = map_of b"
  shows "sort (map fst a) = sort (map fst (b :: (string \<times> string) list))"
proof -
  have "set (map fst a) = set (map fst b)"
    using assms(3) by (metis dom_map_of_conv_image_fst set_map)
  then have "mset (map fst a) = mset (map fst b)"
    using set_eq_iff_mset_eq_distinct [OF assms(1) assms(2)] by blast
  then have "mset (sort (map fst b)) = mset (map fst a)" by simp
  then show ?thesis
    by (rule properties_for_sort) simp
qed

lemma pair_str_cong:
  "map_of (entries m1) = map_of (entries m2) \<Longrightarrow> pair_str m1 = pair_str m2"
  by (rule ext) (simp add: pair_str_def index_map_def)

lemma split_first:
  "c \<notin> set xs \<Longrightarrow> c \<notin> set xs' \<Longrightarrow> xs @ c # ys = xs' @ c # ys' \<Longrightarrow> xs = xs' \<and> ys = ys'"
proof (induction xs arbitrary: xs')
  case Nil
  then show ?case by (cases xs') auto
next
  case (Cons x xs)
  then show ?case by (cases xs') auto
qed

lemma join_Cons: "join sep (x # xs) = x @ (if xs = [] then [] else sep # join sep xs)"
  by (cases xs) simp_all

lemma set_join: "set (join sep xs) \<subseteq> insert sep (\<Union>(set ` set xs))"
  by (induction sep xs rule: join.induct) auto

lemma join_kv_inj:
  "list_all kv_ok ps \<Longrightarrow> list_all kv_ok qs \<Longrightarrow>
   join pairSplitter (map kv_str ps) = join pairSplitter (map kv_str qs) \<Longrightarrow> ps = qs"
proof (induction ps arbitrary: qs)
  case Nil
  then show ?case
    by (cases qs) (auto simp: join_Cons kv_str_def)
next
  case (Cons p ps)
  show ?case
  proof (cases qs)
    case Nil
    with Cons.prems show ?thesis by (auto simp: join_Cons kv_str_def)
  next
    case (Cons q qs')
    let ?r = "\<lambda>xs. if xs = [] then [] else pairSplitter # join pairSplitter (map kv_str xs)"
    define rp where "rp = ?r ps"
    define rq where "rq = ?r qs'"
    from Cons.prems(3) Cons
    have "kv_str p @ rp = kv_str q @ rq"
      by (simp only: list.simps(9) join_Cons rp_def rq_def map_is_Nil_conv)
    then have eq: "fst p @ nameSplitter # (snd p @ rp) = fst q @ nameSplitter # (snd q @ rq)"
      by (simp add: kv_str_def)
    have okp: "kv_ok p" "list_all kv_ok ps" and okq: "kv_ok q" "list_all kv_ok qs'"
      using Cons.prems(1,2) Cons by simp_all
    from split_first [OF _ _ eq] okp(1) okq(1)
    have k: "fst p = fst q" and rest: "snd p @ ?r ps = snd q @ ?r qs'"
      by (simp_all add: kv_ok_def rp_def rq_def)
    have "snd p = snd q \<and> ?r ps = ?r qs'"
    proof (cases "ps = []")
      case True
      show ?thesis
      proof (cases "qs' = []")
        case True
        with \<open>ps = []\<close> rest show ?thesis by simp
      next
        case False
        with \<open>ps = []\<close> rest have "pairSplitter \<in> set (snd p)" by auto
        with okp(1) show ?thesis by (simp add: kv_ok_def)
      qed
    next
      case False
      show ?thesis
      proof (cases "qs' = []")
        case True
        with False rest [symmetric] have "pairSplitter \<in> set (snd q)" by auto
        with okq(1) show ?thesis by (simp add: kv_ok_def)
      next
        case F2: False
        from rest False F2
        have "snd p @ pairSplitter # join pairSplitter (map kv_str ps)
            = snd q @ pairSplitter # join pairSplitter (map kv_str qs')" by simp
        from split_first [OF _ _ this] okp(1) okq(1) False F2
        show ?thesis by (simp add: kv_ok_def)
      qed
    qed
    then have v: "snd p = snd q" and r: "?r ps = ?r qs'" by simp_all
    have "ps = qs'"
    proof (cases "ps = []")
      case True
      with r show ?thesis by (cases "qs' = []") auto
    next
      case False
      with r have "qs' \<noteq> []" by (cases "qs' = []") auto
      with r False have "join pairSplitter (map kv_str ps) = join pairSplitter (map kv_str qs')"
        by simp
      then show ?thesis using Cons.IH okp(2) okq(2) by blast
    qed
    with k v Cons show ?thesis by (simp add: prod_eq_iff)
  qed
qed

lemma prefix_part_inj:
  assumes "prefixSplitter \<notin> set b1" "prefixSplitter \<notin> set b2"
    and "(if p1 = [] then [] else p1 @ [prefixSplitter]) @ b1
       = (if p2 = [] then [] else p2 @ [prefixSplitter]) @ b2"
  shows "p1 = p2 \<and> b1 = b2"
proof (cases "p1 = []")
  case True
  show ?thesis
  proof (cases "p2 = []")
    case True
    with \<open>p1 = []\<close> assms(3) show ?thesis by simp
  next
    case False
    with True assms(3) have "prefixSplitter \<in> set b1" by auto
    with assms(1) show ?thesis by simp
  qed
next
  case False
  show ?thesis
  proof (cases "p2 = []")
    case True
    with False assms(3) [symmetric] have "prefixSplitter \<in> set b2" by auto
    with assms(2) show ?thesis by simp
  next
    case F2: False
    with False assms(3) have "p1 @ prefixSplitter # b1 = p2 @ prefixSplitter # b2" by simp
    then have "rev (p1 @ prefixSplitter # b1) = rev (p2 @ prefixSplitter # b2)" by simp
    then have "rev b1 @ prefixSplitter # rev p1 = rev b2 @ prefixSplitter # rev p2" by simp
    from split_first [OF _ _ this] assms(1,2) show ?thesis by simp
  qed
qed

lemma pair_str_kv: "map (pair_str m) ks = map kv_str (map (\<lambda>k. (k, index_map m k)) ks)"
  by (simp add: pair_str_def kv_str_def)

lemma KeyMap_key_pairs:
  "pool_inv kdb \<Longrightarrow>
   fst (KeyMap kdb pfx m)
     = (if pfx = [] then [] else pfx @ [prefixSplitter])
       @ join pairSplitter (map kv_str (pairs_of m))"
  by (simp add: KeyMap_key pairs_of_def pair_str_kv)

lemma KeyMap_spec:
  "pool_inv kdb \<Longrightarrow> fst (KeyMap kdb pfx m) = Identity_spec pfx (entries m)"
proof -
  assume inv: "pool_inv kdb"
  have "pair_str m
      = (\<lambda>k. k @ ''='' @ (case map_of (entries m) k of None \<Rightarrow> [] | Some v \<Rightarrow> v))"
    by (rule ext) (simp add: pair_str_def index_map_def nameSplitter_def)
  then show ?thesis
    by (simp add: KeyMap_key [OF inv] Identity_spec_def prefixSplitter_def pairSplitter_def)
qed

lemma KeyMap_order_indep:
  assumes "pool_inv kdb1" "pool_inv kdb2" "wf_map m1" "wf_map m2"
    "map_of (entries m1) = map_of (entries m2)"
  shows "fst (KeyMap kdb1 pfx m1) = fst (KeyMap kdb2 pfx m2)"
  using assms sort_keys_eq [of "entries m1" "entries m2"] pair_str_cong [of m1 m2]
  by (simp add: KeyMap_key wf_map_def)

lemma index_map_entry:
  "(k, v) \<in> set (entries m) \<Longrightarrow> (k, index_map m k) \<in> set (entries m)"
proof -
  assume "(k, v) \<in> set (entries m)"
  then have "k \<in> fst ` set (entries m)" by force
  then obtain v' where "map_of (entries m) k = Some v'"
    by (cases "map_of (entries m) k") (auto simp: map_of_eq_None_iff)
  then show ?thesis by (auto simp: index_map_def dest: map_of_SomeD)
qed

lemma pairs_of_subset: "set (pairs_of m) \<subseteq> set (entries m)"
  by (auto simp: pairs_of_def intro: index_map_entry)

lemma reserved_splitters:
  "str_ok s \<Longrightarrow> nameSplitter \<notin> set s \<and> pairSplitter \<notin> set s \<and> prefixSplitter \<notin> set s"
  by (auto simp: str_ok_def reserved_def list_all_iff)

lemma pairs_of_ok:
  assumes "alphabet_ok m"
  shows "list_all kv_ok (pairs_of m)"
    and "prefixSplitter \<notin> set (join pairSplitter (map kv_str (pairs_of m)))"
proof -
  have ok: "str_ok (fst p) \<and> str_ok (snd p)" if "p \<in> set (pairs_of m)" for p
    using assms that pairs_of_subset [of m]
    by (cases p) (auto simp: alphabet_ok_def list_all_iff)
  show "list_all kv_ok (pairs_of m)"
    using ok by (auto simp: list_all_iff kv_ok_def dest!: reserved_splitters)
  have "prefixSplitter \<notin> set (kv_str p)" if "p \<in> set (pairs_of m)" for p
    using ok [OF that] reserved_splitters [of "fst p"] reserved_splitters [of "snd p"]
    by (auto simp: kv_str_def prefixSplitter_def nameSplitter_def)
  then show "prefixSplitter \<notin> set (join pairSplitter (map kv_str (pairs_of m)))"
    using set_join [of pairSplitter "map kv_str (pairs_of m)"]
    by (auto simp: prefixSplitter_def pairSplitter_def)
qed

lemma pairs_of_eq_map:
  assumes "pairs_of m1 = pairs_of m2"
  shows "map_of (entries m1) = map_of (entries m2)"
proof (rule ext)
  fix k
  have keys: "fst ` set (entries m1) = fst ` set (entries m2)"
  proof -
    have "set (map fst (pairs_of m1)) = set (map fst (pairs_of m2))" using assms by simp
    then show ?thesis by (simp add: pairs_of_def comp_def)
  qed
  show "map_of (entries m1) k = map_of (entries m2) k"
  proof (cases "k \<in> fst ` set (entries m1)")
    case False
    with keys have "map_of (entries m1) k = None" "map_of (entries m2) k = None"
      by (simp_all add: map_of_eq_None_iff)
    then show ?thesis by simp
  next
    case True
    then have "(k, index_map m1 k) \<in> set (pairs_of m1)" by (auto simp: pairs_of_def)
    with assms have "(k, index_map m1 k) \<in> set (pairs_of m2)" by simp
    then have iv: "index_map m1 k = index_map m2 k" by (auto simp: pairs_of_def)
    from True obtain v1 where v1: "map_of (entries m1) k = Some v1"
      by (cases "map_of (entries m1) k") (auto simp: map_of_eq_None_iff)
    from True keys obtain v2 where v2: "map_of (entries m2) k = Some v2"
      by (cases "map_of (entries m2) k") (auto simp: map_of_eq_None_iff)
    from iv v1 v2 show ?thesis by (simp add: index_map_def)
  qed
qed

lemma KeyMap_inj:
  assumes "pool_inv kdb1" "pool_inv kdb2" "alphabet_ok m1" "alphabet_ok m2"
    and "fst (KeyMap kdb1 prefix1 m1) = fst (KeyMap kdb2 prefix2 m2)"
  shows "prefix1 = prefix2 \<and> map_of (entries m1) = map_of (entries m2)"
proof -
  from assms(5)
  have "(if prefix1 = [] then [] else prefix1 @ [prefixSplitter])
          @ join pairSplitter (map kv_str (pairs_of m1))
      = (if prefix2 = [] then [] else prefix2 @ [prefixSplitter])
          @ join pairSplitter (map kv_str (pairs_of m2))"
    by (simp only: KeyMap_key_pairs [OF assms(1)] KeyMap_key_pairs [OF assms(2)])
  from prefix_part_inj [OF pairs_of_ok(2) [OF assms(3)] pairs_of_ok(2) [OF assms(4)] this]
  have p: "prefix1 = prefix2"
    and b: "join pairSplitter (map kv_str (pairs_of m1))
          = join pairSplitter (map kv_str (pairs_of m2))"
    by (rule conjunct1, rule conjunct2)
  from join_kv_inj [OF pairs_of_ok(1) [OF assms(3)] pairs_of_ok(1) [OF assms(4)] b]
  have "pairs_of m1 = pairs_of m2" .
  then have "map_of (entries m1) = map_of (entries m2)" by (rule pairs_of_eq_map)
  with p show ?thesis by (intro conjI)
qed

lemma pool_inv_newKeyDB: "pool_inv (newKeyDB sz blen slen)"
  by (simp add: pool_inv_def newKeyDB_def DB_init_def newDB_def list_all_iff)

lemma pool_inv_keyDB: "pool_inv keyDB"
  by (simp add: keyDB_def pool_inv_newKeyDB)

section \<open>Flush pass lemmas\<close>

lemma counter_report_calls:
  "snd (counter_report nm tgs r c) = r \<or>
   (\<exists>d. snd (counter_report nm tgs r c) = r @ [ReportCounter nm tgs d])"
  by (cases "counter_value c") (simp add: counter_report_def)

lemma gauge_report_calls:
  "snd (gauge_report nm tgs r g) = r \<or>
   (\<exists>v. snd (gauge_report nm tgs r g) = r @ [ReportGauge nm tgs v])"
  by (simp add: gauge_report_def Let_def)

lemma report_counters_calls:
  "\<exists>evs. snd (report_counters s cs r) = r @ evs \<and> no_flush evs"
proof (induction cs arbitrary: r)
  case Nil
  show ?case by (simp add: no_flush_def)
next
  case (Cons p cs)
  obtain nm c where p: "p = (nm, c)" by (cases p)
  obtain c' r1 where cr: "counter_report (fullyQualifiedName s nm) (tags s) r c = (c', r1)"
    by (cases "counter_report (fullyQualifiedName s nm) (tags s) r c")
  from counter_report_calls [of "fullyQualifiedName s nm" "tags s" r c] cr
  obtain e1 where e1: "r1 = r @ e1" "no_flush e1" by (auto simp: no_flush_def)
  from Cons.IH [of r1] obtain e2 where e2: "snd (report_counters s cs r1) = r1 @ e2" "no_flush e2"
    by blast
  have "snd (report_counters s (p # cs) r) = snd (report_counters s cs r1)"
    by (simp add: p cr case_prod_beta)
  then have "snd (report_counters s (p # cs) r) = r @ (e1 @ e2)"
    using e1(1) e2(1) by simp
  moreover have "no_flush (e1 @ e2)" using e1(2) e2(2) by (simp add: no_flush_def)
  ultimately show ?case by blast
qed

lemma report_gauges_calls:
  "\<exists>evs. snd (report_gauges s gs r) = r @ evs \<and> no_flush evs"
proof (induction gs arbitrary: r)
  case Nil
  show ?case by (simp add: no_flush_def)
next
  case (Cons p gs)
  obtain nm g where p: "p = (nm, g)" by (cases p)
  obtain g' r1 where gr: "gauge_report (fullyQualifiedName s nm) (tags s) r g = (g', r1)"
    by (cases "gauge_report (fullyQualifiedName s nm) (tags s) r g")
  from gauge_report_calls [of "fullyQualifiedName s nm" "tags s" r g] gr
  obtain e1 where e1: "r1 = r @ e1" "no_flush e1" by (auto simp: no_flush_def)
  from Cons.IH [of r1] obtain e2 where e2: "snd (report_gauges s gs r1) = r1 @ e2" "no_flush e2"
    by blast
  have "snd (report_gauges s (p # gs) r) = snd (report_gauges s gs r1)"
    by (simp add: p gr case_prod_beta)
  then have "snd (report_gauges s (p # gs) r) = r @ (e1 @ e2)"
    using e1(1) e2(1) by simp
  moreover have "no_flush (e1 @ e2)" using e1(2) e2(2) by (simp add: no_flush_def)
  ultimately show ?case by blast
qed

lemma scope_report_calls:
  "\<exists>evs. snd (scope_report s r) = r @ evs @ [Flush] \<and> no_flush evs"
proof -
  obtain cs' r1 where c: "report_counters s (counters s) r = (cs', r1)"
    by (cases "report_counters s (counters s) r")
  obtain gs' r2 where g: "report_gauges s (gauges s) r1 = (gs', r2)"
    by (cases "report_gauges s (gauges s) r1")
  from report_counters_calls [of s "counters s" r] c
  obtain e1 where e1: "r1 = r @ e1" "no_flush e1" by auto
  from report_gauges_calls [of s "gauges s" r1] g
  obtain e2 where e2: "r2 = r1 @ e2" "no_flush e2" by auto
  have "snd (scope_report s r) = r2 @ [Flush]"
    by (simp add: scope_report_def c g)
  then have "snd (scope_report s r) = r @ (e1 @ e2) @ [Flush]"
    using e1(1) e2(1) by simp
  moreover have "no_flush (e1 @ e2)" using e1(2) e2(2) by (simp add: no_flush_def)
  ultimately show ?thesis by blast
qed

lemma scope_report_status:
  "status (fst (scope_report s r)) = status s \<and> reporter (fst (scope_report s r)) = reporter s
   \<and> prefix (fst (scope_report s r)) = prefix s \<and> tags (fst (scope_report s r)) = tags s
   \<and> separator (fst (scope_report s r)) = separator s"
  by (simp add: scope_report_def split: prod.splits)

text \<open>The calls of one pass over the registry.\<close>

lemma report_all_calls:
  "\<exists>evs. snd (report_all as ss r) = r @ evs \<and> count_list evs Flush = length as
         \<and> (as = [] \<longrightarrow> evs = []) \<and> (as \<noteq> [] \<longrightarrow> evs \<noteq> [] \<and> last evs = Flush)"
proof (induction as arbitrary: ss r)
  case Nil
  show ?case by simp
next
  case (Cons a as)
  obtain s' r1 where sr: "scope_report (ss ! a) r = (s', r1)"
    by (cases "scope_report (ss ! a) r")
  from scope_report_calls [of "ss ! a" r] sr
  obtain e1 where e1: "r1 = r @ e1 @ [Flush]" "no_flush e1" by auto
  from Cons.IH [of "ss[a := s']" r1]
  obtain e2 where e2: "snd (report_all as (ss[a := s']) r1) = r1 @ e2"
    "count_list e2 Flush = length as" "as = [] \<longrightarrow> e2 = []"
    "as \<noteq> [] \<longrightarrow> e2 \<noteq> [] \<and> last e2 = Flush"
    by blast
  let ?evs = "e1 @ [Flush] @ e2"
  have c1: "count_list e1 Flush = 0" using e1(2) by (simp add: no_flush_def)
  have "snd (report_all (a # as) ss r) = r @ ?evs"
    using e1(1) e2(1) by (simp add: sr)
  moreover have "count_list ?evs Flush = length (a # as)"
    using c1 e2(2) by simp
  moreover have "?evs \<noteq> [] \<and> last ?evs = Flush"
    using e2(3,4) by (cases "as = []") simp_all
  ultimately show ?case by blast
qed

lemma map_update_same: "f x = f (ss ! a) \<Longrightarrow> map f (ss[a := x]) = map f ss"
proof (cases "a < length ss")
  case True
  assume "f x = f (ss ! a)"
  with True show ?thesis by (simp add: map_update list_update_same_conv)
next
  case False
  then have "ss[a := x] = ss" by (intro list_update_beyond) simp
  then show ?thesis by simp
qed

lemma report_all_scopes:
  "length (fst (report_all as ss r)) = length ss
   \<and> map status (fst (report_all as ss r)) = map status ss
   \<and> map reporter (fst (report_all as ss r)) = map reporter ss"
proof (induction as arbitrary: ss r)
  case Nil
  show ?case by simp
next
  case (Cons a as)
  obtain s' r1 where sr: "scope_report (ss ! a) r = (s', r1)"
    by (cases "scope_report (ss ! a) r")
  have s': "status s' = status (ss ! a)" "reporter s' = reporter (ss ! a)"
    using scope_report_status [of "ss ! a" r] sr by simp_all
  have "map status (ss[a := s']) = map status ss" "map reporter (ss[a := s']) = map reporter ss"
    using s' by (simp_all add: map_update_same)
  with Cons.IH [of "ss[a := s']" r1] show ?case by (simp add: sr)
qed

lemma pass_registry:
  assumes "reporter (scopes st ! a) \<noteq> None"
  shows "\<exists>evs. calls (reportRegistryWithLock st a) = calls st @ evs
           \<and> count_list evs Flush = length (subscopes st)
           \<and> (subscopes st = [] \<longrightarrow> evs = [])
           \<and> (subscopes st \<noteq> [] \<longrightarrow> evs \<noteq> [] \<and> last evs = Flush)"
proof -
  obtain ss' r' where ra: "report_all (map snd (subscopes st)) (scopes st) (calls st) = (ss', r')"
    by (cases "report_all (map snd (subscopes st)) (scopes st) (calls st)")
  from report_all_calls [of "map snd (subscopes st)" "scopes st" "calls st"] ra
  obtain evs where evs: "r' = calls st @ evs" "count_list evs Flush = length (subscopes st)"
    "subscopes st = [] \<longrightarrow> evs = []" "subscopes st \<noteq> [] \<longrightarrow> evs \<noteq> [] \<and> last evs = Flush"
    by auto
  have "calls (reportRegistryWithLock st a) = r'"
    using assms by (simp add: reportRegistryWithLock_def ra)
  with evs show ?thesis by blast
qed

lemma pass_registry_other:
  "subscopes (reportRegistryWithLock st a) = subscopes st
   \<and> keydb (reportRegistryWithLock st a) = keydb st
   \<and> length (scopes (reportRegistryWithLock st a)) = length (scopes st)
   \<and> map status (scopes (reportRegistryWithLock st a)) = map status (scopes st)
   \<and> map reporter (scopes (reportRegistryWithLock st a)) = map reporter (scopes st)"
proof (cases "reporter (scopes st ! a) \<noteq> None")
  case False
  then show ?thesis by (simp add: reportRegistryWithLock_def)
next
  case True
  obtain ss' r' where ra: "report_all (map snd (subscopes st)) (scopes st) (calls st) = (ss', r')"
    by (cases "report_all (map snd (subscopes st)) (scopes st) (calls st)")
  from report_all_scopes [of "map snd (subscopes st)" "scopes st" "calls st"] ra
  have "length ss' = length (scopes st)" "map status ss' = map status (scopes st)"
    "map reporter ss' = map reporter (scopes st)" by simp_all
  then show ?thesis using True by (simp add: reportRegistryWithLock_def ra)
qed

lemma nth_of_map_eq: "map f xs = map f ys \<Longrightarrow> a < length xs \<Longrightarrow> f (xs ! a) = f (ys ! a)"
  by (metis length_map nth_map)

lemma set_status_fields:
  "subscopes (set_status st a x) = subscopes st" "calls (set_status st a x) = calls st"
  "keydb (set_status st a x) = keydb st" "length (scopes (set_status st a x)) = length (scopes st)"
  "a < length (scopes st) \<Longrightarrow> status (scopes (set_status st a x) ! a) = x"
  by (simp_all add: set_status_def)

lemma set_status_reporter:
  "reporter (scopes (set_status st a x) ! b) = reporter (scopes st ! b)"
proof (cases "a < length (scopes st)")
  case True
  then show ?thesis by (cases "b = a") (simp_all add: set_status_def)
next
  case False
  then have "(scopes st)[a := (scopes st ! a)\<lparr>status := x\<rparr>] = scopes st"
    by (intro list_update_beyond) simp
  then show ?thesis by (simp add: set_status_def)
qed

lemma scopeStatus_update: "(x :: scopeStatus)\<lparr>closed := c, quit := q\<rparr> = \<lparr>closed = c, quit = q\<rparr>"
  by (cases x) simp

lemma Close_open:
  assumes a: "a < length (scopes st)" and nc: "\<not> closed (status (scopes st ! a))"
    and q: "quit (status (scopes st ! a)) = ChanOpen"
  shows "Close st a =
     Inr (closer_result (reporter (scopes st ! a)),
          (reportRegistryWithLock (closing st a) a)
            \<lparr>calls := calls (reportRegistryWithLock (closing st a) a)
                        @ closer_calls (reporter (scopes st ! a))\<rparr>)"
proof -
  let ?st1 = "set_status st a ((status (scopes st ! a))\<lparr>closed := True\<rparr>)"
  have s1: "status (scopes ?st1 ! a) = (status (scopes st ! a))\<lparr>closed := True\<rparr>"
    using a by (simp add: set_status_fields)
  have q1: "close_chan (quit (status (scopes ?st1 ! a))) = Inr ChanClosed"
    using q by (simp add: s1 close_chan_def)
  let ?st2 = "set_status ?st1 a ((status (scopes ?st1 ! a))\<lparr>quit := ChanClosed\<rparr>)"
  have st2: "?st2 = closing st a"
    using a q by (simp add: s1 closing_def set_status_def scopeStatus_update)
  let ?st3 = "reportRegistryWithLock (closing st a) a"
  have "map reporter (scopes ?st3) = map reporter (scopes (closing st a))"
    using pass_registry_other [of "closing st a" a] by simp
  moreover have la: "a < length (scopes ?st3)"
    using pass_registry_other [of "closing st a" a] a by (simp add: closing_def set_status_fields)
  ultimately have r3: "reporter (scopes ?st3 ! a) = reporter (scopes st ! a)"
    using nth_of_map_eq [of reporter "scopes ?st3" "scopes (closing st a)" a]
    by (simp add: closing_def set_status_reporter)
  have "Close st a =
     (case reporter (scopes ?st3 ! a) of
        None \<Rightarrow> Inr (None, ?st3)
      | Some rep \<Rightarrow>
          (if is_closer rep
           then Inr (close_result rep, ?st3\<lparr>calls := calls ?st3 @ [CloseReporter]\<rparr>)
           else Inr (None, ?st3)))"
    using nc by (simp add: Close_def Let_def q1 st2)
  then show ?thesis
    unfolding r3
    by (cases "reporter (scopes st ! a)") (simp_all add: closer_calls_def closer_result_def)
qed

lemma Close_open_status:
  assumes a: "a < length (scopes st)"
  shows "status (scopes (reportRegistryWithLock (closing st a) a) ! a)
           = \<lparr>closed = True, quit = ChanClosed\<rparr>"
proof -
  let ?st3 = "reportRegistryWithLock (closing st a) a"
  have "map status (scopes ?st3) = map status (scopes (closing st a))"
    and "length (scopes ?st3) = length (scopes st)"
    using pass_registry_other [of "closing st a" a] by (simp_all add: closing_def set_status_fields)
  then have "status (scopes ?st3 ! a) = status (scopes (closing st a) ! a)"
    using nth_of_map_eq [of status "scopes ?st3" "scopes (closing st a)" a] a by simp
  then show ?thesis using a by (simp add: closing_def set_status_fields)
qed

lemma Close_closed: "closed (status (scopes st ! a)) \<Longrightarrow> Close st a = Inr (None, st)"
  by (simp add: Close_def)

lemma closed_Report: "closed (status (scopes st ! a)) \<Longrightarrow> Report st a = st"
  by (simp add: Report_def reportLoopRun_def)

lemma closed_iter:
  "closed (status (scopes st ! a)) \<Longrightarrow> reportLoop_iter sel st a = Some (b, st') \<Longrightarrow> st' = st"
  by (cases sel) (auto simp: reportLoop_iter_def reportLoopRun_def split: if_splits)

lemma closed_exec_op: "closed (status (scopes st ! a)) \<Longrightarrow> exec_op a x st = st"
proof (cases x)
  case OpReport
  assume "closed (status (scopes st ! a))"
  with OpReport show ?thesis by (simp add: closed_Report)
next
  case (OpTick sel)
  assume c: "closed (status (scopes st ! a))"
  show ?thesis
  proof (cases "reportLoop_iter sel st a")
    case None
    then show ?thesis using OpTick by simp
  next
    case (Some p)
    obtain b st' where p: "p = (b, st')" by (cases p)
    from closed_iter [OF c] Some p have "st' = st" by simp
    then show ?thesis using OpTick Some p by simp
  qed
qed

lemma closed_exec_ops: "closed (status (scopes st ! a)) \<Longrightarrow> exec_ops a xs st = st"
  by (induction xs) (simp_all add: closed_exec_op)

lemma demo_polled_facts:
  "0 < length (scopes demo_polled)"
  "reporter (scopes demo_polled ! 0) \<noteq> None"
  "\<not> closed (status (scopes demo_polled ! 0))"
  "quit (status (scopes demo_polled ! 0)) = ChanOpen"
  "length (subscopes demo_polled) = 1"
  "calls demo_polled = []"
  "calls (Report demo_polled 0) = [ReportCounter ''PollCount'' (Some []) 3, Flush]"
  "calls (reportRegistryWithLock (closing demo_polled 0) 0)
       @ closer_calls (reporter (scopes demo_polled ! 0))
     = [ReportCounter ''PollCount'' (Some []) 3, Flush]"
  by code_simp+

lemma demo_closed_facts:
  "Close demo_polled 0 = Inr (None, demo_closed)"
  "calls demo_closed = [ReportCounter ''PollCount'' (Some []) 3, Flush]"
  by code_simp+

lemma pass_calls_append: "calls st' = calls st @ evs \<Longrightarrow> pass_calls st st' = evs"
  by (simp add: pass_calls_def)

lemma closer_calls_no_flush: "count_list (closer_calls rep) Flush = 0"
  by (simp add: closer_calls_def split: option.splits)

lemma Close_Inr_open:
  assumes "Close st a = Inr (res, st1)" and "\<not> closed (status (scopes st ! a))"
    and "a < length (scopes st)"
  shows "quit (status (scopes st ! a)) = ChanOpen"
proof (rule ccontr)
  assume n: "quit (status (scopes st ! a)) \<noteq> ChanOpen"
  let ?st1 = "set_status st a ((status (scopes st ! a))\<lparr>closed := True\<rparr>)"
  have "quit (status (scopes ?st1 ! a)) = quit (status (scopes st ! a))"
    using assms(3) by (simp add: set_status_fields)
  then have "\<exists>p. close_chan (quit (status (scopes ?st1 ! a))) = Inl p"
    using n by (cases "quit (status (scopes st ! a))") (simp_all add: close_chan_def)
  then obtain p where "close_chan (quit (status (scopes ?st1 ! a))) = Inl p" by blast
  then have "Close st a = Inl p"
    using assms(2) by (simp add: Close_def Let_def)
  with assms(1) show False by simp
qed

lemma wf_stateD:
  assumes "wf_state st"
  shows "pool_inv (keydb st)" "scopes st \<noteq> []" "distinct (map fst (subscopes st))"
    "\<And>k p. (k, p) \<in> set (subscopes st) \<Longrightarrow> p < length (scopes st) \<and> k = key_of (scopes st ! p)"
    "\<And>p. p < length (scopes st) \<Longrightarrow> map_of (subscopes st) (key_of (scopes st ! p)) = Some p"
    "\<And>p. p < length (scopes st) \<Longrightarrow> wf_map (tags (scopes st ! p))"
  using assms by (auto simp: wf_state_def list_all_iff)

lemma wf_stateI:
  assumes "pool_inv (keydb st)" "scopes st \<noteq> []" "distinct (map fst (subscopes st))"
    "\<And>k p. (k, p) \<in> set (subscopes st) \<Longrightarrow> p < length (scopes st) \<and> k = key_of (scopes st ! p)"
    "\<And>p. p < length (scopes st) \<Longrightarrow> map_of (subscopes st) (key_of (scopes st ! p)) = Some p"
    "\<And>p. p < length (scopes st) \<Longrightarrow> wf_map (tags (scopes st ! p))"
  shows "wf_state st"
  using assms by (auto simp: wf_state_def list_all_iff in_set_conv_nth)

lemma fold_map_store_distinct:
  "distinct (map fst acc) \<Longrightarrow> distinct (map fst (fold map_store xs acc))"
  by (induction xs arbitrary: acc) (simp_all add: map_store_def distinct_update)

lemma wf_map_copyMap: "wf_map (copyMap t)"
  by (simp add: copyMap_def wf_map_def entries_def fold_map_store_distinct)

lemma wf_map_merge: "wf_map l \<Longrightarrow> wf_map r \<Longrightarrow> wf_map (mergeRightTags l r)"
  by (simp add: mergeRightTags_def wf_map_def entries_def fold_map_store_distinct
      split: option.splits)

lemma update_absent: "map_of al k = None \<Longrightarrow> AList.update k v al = al @ [(k, v)]"
  by (induction al) (auto split: if_splits)

lemma copyMap_empty: "copyMap (Some []) = Some []" "copyMap None = Some []"
  by (simp_all add: copyMap_def entries_def)

lemma merge_empty_right: "mergeRightTags l (Some []) = l"
  by (simp add: mergeRightTags_def len_map_def entries_def)

lemma merge_nil_right: "mergeRightTags l None = l"
  by (simp add: mergeRightTags_def len_map_def entries_def)

lemma subscope_found:
  assumes "pool_inv (keydb st)"
    and "map_of (subscopes st) (derived_key st a pfx t0) = Some e"
  shows "fst (subscope st a pfx t0) = e"
    and "scopes (snd (subscope st a pfx t0)) = scopes st"
    and "subscopes (snd (subscope st a pfx t0)) = subscopes st"
    and "calls (snd (subscope st a pfx t0)) = calls st"
    and "pool_inv (keydb (snd (subscope st a pfx t0)))"
proof -
  let ?it = "mergeRightTags (tags (scopes st ! a)) t0"
  obtain key kdb' where k: "KeyMap (keydb st) pfx ?it = (key, kdb')"
    by (cases "KeyMap (keydb st) pfx ?it")
  have key: "key = derived_key st a pfx t0"
    using KeyMap_spec [OF assms(1), of pfx ?it] k by (simp add: derived_key_def)
  have inv: "pool_inv kdb'" using KeyMap_pool_inv [OF assms(1), of pfx ?it] k by simp
  have "subscope st a pfx t0 = (e, st\<lparr>keydb := kdb'\<rparr>)"
    using assms(2) by (simp add: subscope_def Let_def k key)
  then show "fst (subscope st a pfx t0) = e"
    and "scopes (snd (subscope st a pfx t0)) = scopes st"
    and "subscopes (snd (subscope st a pfx t0)) = subscopes st"
    and "calls (snd (subscope st a pfx t0)) = calls st"
    and "pool_inv (keydb (snd (subscope st a pfx t0)))"
    using inv by simp_all
qed

lemma subscope_new:
  assumes "pool_inv (keydb st)"
    and "map_of (subscopes st) (derived_key st a pfx t0) = None"
  shows "fst (subscope st a pfx t0) = length (scopes st)"
    and "\<exists>new. scopes (snd (subscope st a pfx t0)) = scopes st @ [new]
           \<and> prefix new = pfx \<and> tags new = mergeRightTags (tags (scopes st ! a)) t0"
    and "subscopes (snd (subscope st a pfx t0))
           = subscopes st @ [(derived_key st a pfx t0, length (scopes st))]"
    and "calls (snd (subscope st a pfx t0)) = calls st"
    and "pool_inv (keydb (snd (subscope st a pfx t0)))"
proof -
  let ?it = "mergeRightTags (tags (scopes st ! a)) t0"
  obtain key kdb' where k: "KeyMap (keydb st) pfx ?it = (key, kdb')"
    by (cases "KeyMap (keydb st) pfx ?it")
  have key: "key = derived_key st a pfx t0"
    using KeyMap_spec [OF assms(1), of pfx ?it] k by (simp add: derived_key_def)
  have inv: "pool_inv kdb'" using KeyMap_pool_inv [OF assms(1), of pfx ?it] k by simp
  let ?new = "\<lparr>prefix = pfx, reporter = reporter (scopes st ! a),
                separator = separator (scopes st ! a), tags = ?it,
                status = \<lparr>closed = False, quit = ChanNil\<rparr>, counters = [], gauges = []\<rparr>"
  have "subscope st a pfx t0 =
      (length (scopes st),
       st\<lparr>keydb := kdb', scopes := scopes st @ [?new],
          subscopes := subscopes st @ [(derived_key st a pfx t0, length (scopes st))]\<rparr>)"
    using assms(2)
    by (simp add: subscope_def newSubscope_def Let_def k key map_store_def update_absent)
  then show "fst (subscope st a pfx t0) = length (scopes st)"
    and "\<exists>new. scopes (snd (subscope st a pfx t0)) = scopes st @ [new]
           \<and> prefix new = pfx \<and> tags new = mergeRightTags (tags (scopes st ! a)) t0"
    and "subscopes (snd (subscope st a pfx t0))
           = subscopes st @ [(derived_key st a pfx t0, length (scopes st))]"
    and "calls (snd (subscope st a pfx t0)) = calls st"
    and "pool_inv (keydb (snd (subscope st a pfx t0)))"
    using inv by simp_all
qed

lemma key_of_eq:
  assumes "wf_map (tags s)" "wf_map (tags s')" "prefix s = prefix s'"
    "map_of (entries (tags s)) = map_of (entries (tags s'))"
  shows "key_of s = key_of s'"
proof -
  have "fst (KeyMap keyDB (prefix s) (tags s)) = fst (KeyMap keyDB (prefix s) (tags s'))"
    using pool_inv_keyDB pool_inv_keyDB assms(1,2,4) by (rule KeyMap_order_indep)
  then show ?thesis
    by (simp add: key_of_def KeyMap_spec [OF pool_inv_keyDB] assms(3))
qed

lemma same_scope:
  assumes wf: "wf_state st" and a: "a < length (scopes st)" and b: "b < length (scopes st)"
    and "prefix (scopes st ! a) = prefix (scopes st ! b)"
    and "map_of (entries (tags (scopes st ! a))) = map_of (entries (tags (scopes st ! b)))"
  shows "a = b"
proof -
  have e: "key_of (scopes st ! a) = key_of (scopes st ! b)"
    using wf_stateD(6) [OF wf a] wf_stateD(6) [OF wf b] assms(4,5) by (rule key_of_eq)
  have "Some a = map_of (subscopes st) (key_of (scopes st ! a))"
    using wf_stateD(5) [OF wf a] by (rule sym)
  also have "\<dots> = map_of (subscopes st) (key_of (scopes st ! b))"
    by (simp only: e)
  also have "\<dots> = Some b" by (rule wf_stateD(5) [OF wf b])
  finally show ?thesis by (simp only: option.inject)
qed

lemma wf_map_None: "wf_map None"
  by (simp add: wf_map_def entries_def)

lemma subscope_wf:
  assumes wf: "wf_state st" and a: "a < length (scopes st)" and t0: "wf_map t0"
  shows "wf_state (snd (subscope st a pfx t0))"
    and "map_of (subscopes (snd (subscope st a pfx t0))) (derived_key st a pfx t0)
           = Some (fst (subscope st a pfx t0))"
    and "a < length (scopes (snd (subscope st a pfx t0)))"
    and "scopes (snd (subscope st a pfx t0)) ! a = scopes st ! a"
proof -
  let ?key = "derived_key st a pfx t0"
  let ?r = "subscope st a pfx t0"
  note inv = wf_stateD(1) [OF wf]
  have all: "wf_state (snd ?r) \<and> map_of (subscopes (snd ?r)) ?key = Some (fst ?r)
       \<and> a < length (scopes (snd ?r)) \<and> scopes (snd ?r) ! a = scopes st ! a"
  proof (cases "map_of (subscopes st) ?key")
    case (Some e)
    note f = subscope_found [OF inv Some]
    have "wf_state (snd ?r)"
    proof (rule wf_stateI)
      show "pool_inv (keydb (snd ?r))" by (rule f(5))
      show "scopes (snd ?r) \<noteq> []" using wf_stateD(2) [OF wf] by (simp add: f(2))
      show "distinct (map fst (subscopes (snd ?r)))" using wf_stateD(3) [OF wf] by (simp add: f(3))
      show "p < length (scopes (snd ?r)) \<and> k = key_of (scopes (snd ?r) ! p)"
        if "(k, p) \<in> set (subscopes (snd ?r))" for k p
        using that wf_stateD(4) [OF wf, of k p] by (simp add: f(2) f(3))
      show "map_of (subscopes (snd ?r)) (key_of (scopes (snd ?r) ! p)) = Some p"
        if "p < length (scopes (snd ?r))" for p
        using that wf_stateD(5) [OF wf, of p] by (simp add: f(2) f(3))
      show "wf_map (tags (scopes (snd ?r) ! p))" if "p < length (scopes (snd ?r))" for p
        using that wf_stateD(6) [OF wf, of p] by (simp add: f(2))
    qed
    then show ?thesis using Some a by (simp add: f(1) f(2) f(3))
  next
    case None
    note f = subscope_new [OF inv None]
    let ?n = "length (scopes st)"
    from f(2) obtain new where new: "scopes (snd ?r) = scopes st @ [new]"
      "prefix new = pfx" "tags new = mergeRightTags (tags (scopes st ! a)) t0" by blast
    have kn: "key_of new = ?key" by (simp add: key_of_def derived_key_def new(2) new(3))
    have old: "(scopes st @ [new]) ! p = scopes st ! p" if "p < ?n" for p
      using that by (simp add: nth_append)
    have notin: "?key \<notin> fst ` set (subscopes st)"
      using None by (simp add: map_of_eq_None_iff)
    have "wf_state (snd ?r)"
    proof (rule wf_stateI)
      show "pool_inv (keydb (snd ?r))" by (rule f(5))
      show "scopes (snd ?r) \<noteq> []" by (simp add: new(1))
      show "distinct (map fst (subscopes (snd ?r)))"
        using wf_stateD(3) [OF wf] notin by (simp add: f(3))
      show "p < length (scopes (snd ?r)) \<and> k = key_of (scopes (snd ?r) ! p)"
        if "(k, p) \<in> set (subscopes (snd ?r))" for k p
      proof (cases "(k, p) \<in> set (subscopes st)")
        case True
        from wf_stateD(4) [OF wf True] show ?thesis by (simp add: new(1) old)
      next
        case False
        with that have "k = ?key" "p = ?n" by (simp_all add: f(3))
        then show ?thesis by (simp add: new(1) kn)
      qed
      show "map_of (subscopes (snd ?r)) (key_of (scopes (snd ?r) ! p)) = Some p"
        if "p < length (scopes (snd ?r))" for p
      proof (cases "p < ?n")
        case True
        from wf_stateD(5) [OF wf True] show ?thesis
          by (simp add: f(3) new(1) old [OF True] map_add_def)
      next
        case False
        with that have p: "p = ?n" by (simp add: new(1))
        show ?thesis using None by (simp add: f(3) new(1) p kn map_add_def)
      qed
      show "wf_map (tags (scopes (snd ?r) ! p))" if "p < length (scopes (snd ?r))" for p
      proof (cases "p < ?n")
        case True
        from wf_stateD(6) [OF wf True] show ?thesis by (simp add: new(1) old [OF True])
      next
        case False
        with that have p: "p = ?n" by (simp add: new(1))
        show ?thesis
          using wf_map_merge [OF wf_stateD(6) [OF wf a] t0] by (simp add: new(1) p new(3))
      qed
    qed
    moreover have "map_of (subscopes (snd ?r)) ?key = Some (fst ?r)"
      using None by (simp add: f(1) f(3) map_add_def)
    moreover have "a < length (scopes (snd ?r))" using a by (simp add: new(1))
    moreover have "scopes (snd ?r) ! a = scopes st ! a" using a by (simp add: new(1) old)
    ultimately show ?thesis by simp
  qed
  from all show "wf_state (snd ?r)"
    and "map_of (subscopes (snd ?r)) ?key = Some (fst ?r)"
    and "a < length (scopes (snd ?r))"
    and "scopes (snd ?r) ! a = scopes st ! a"
    by simp_all
qed

lemma subscope_twice:
  assumes wf: "wf_state st" and a: "a < length (scopes st)" and t0: "wf_map t0"
  shows "fst (subscope (snd (subscope st a pfx t0)) a pfx t0) = fst (subscope st a pfx t0)"
    and "scopes (snd (subscope (snd (subscope st a pfx t0)) a pfx t0))
           = scopes (snd (subscope st a pfx t0))"
    and "subscopes (snd (subscope (snd (subscope st a pfx t0)) a pfx t0))
           = subscopes (snd (subscope st a pfx t0))"
proof -
  let ?st1 = "snd (subscope st a pfx t0)"
  note w = subscope_wf [OF wf a t0, of pfx]
  have k: "derived_key ?st1 a pfx t0 = derived_key st a pfx t0"
    by (simp add: derived_key_def w(4))
  have m: "map_of (subscopes ?st1) (derived_key ?st1 a pfx t0) = Some (fst (subscope st a pfx t0))"
    using w(2) by (simp only: k)
  note f = subscope_found [OF wf_stateD(1) [OF w(1)] m]
  show "fst (subscope ?st1 a pfx t0) = fst (subscope st a pfx t0)" by (rule f(1))
  show "scopes (snd (subscope ?st1 a pfx t0)) = scopes ?st1" by (rule f(2))
  show "subscopes (snd (subscope ?st1 a pfx t0)) = subscopes ?st1" by (rule f(3))
qed

lemma Tagged_empty:
  assumes wf: "wf_state st" and a: "a < length (scopes st)"
  shows "fst (Tagged st a (Some [])) = a" and "scopes (snd (Tagged st a (Some []))) = scopes st"
    and "subscopes (snd (Tagged st a (Some []))) = subscopes st"
    and "fst (Tagged st a None) = a"
proof -
  have k: "derived_key st a (prefix (scopes st ! a)) (Some []) = key_of (scopes st ! a)"
    by (simp add: derived_key_def key_of_def merge_empty_right)
  have m: "map_of (subscopes st) (derived_key st a (prefix (scopes st ! a)) (Some [])) = Some a"
    using wf_stateD(5) [OF wf a] by (simp only: k)
  note f = subscope_found [OF wf_stateD(1) [OF wf] m]
  show "fst (Tagged st a (Some [])) = a" using f(1) by (simp add: Tagged_def copyMap_empty)
  show "scopes (snd (Tagged st a (Some []))) = scopes st"
    using f(2) by (simp add: Tagged_def copyMap_empty)
  show "subscopes (snd (Tagged st a (Some []))) = subscopes st"
    using f(3) by (simp add: Tagged_def copyMap_empty)
  show "fst (Tagged st a None) = a" using f(1) by (simp add: Tagged_def copyMap_empty)
qed

lemma newRootScope_wf:
  assumes "pool_inv kdb"
  shows "wf_state (newRootScope opts iv kdb)"
proof -
  let ?opts1 = "if Tags opts = None then opts\<lparr>Tags := Some []\<rparr> else opts"
  let ?opts2 = "if Separator ?opts1 = [] then ?opts1\<lparr>Separator := DefaultSeparator\<rparr> else ?opts1"
  let ?s1 = "\<lparr>prefix = Prefix ?opts2, reporter = Reporter ?opts2,
               separator = Separator ?opts2, tags = copyMap (Tags ?opts2),
               status = \<lparr>closed = False, quit = ChanOpen\<rparr>, counters = [], gauges = []\<rparr>"
  obtain key kdb' where k: "KeyMap kdb (prefix ?s1) (tags ?s1) = (key, kdb')"
    by (cases "KeyMap kdb (prefix ?s1) (tags ?s1)")
  have key: "key = key_of ?s1"
    using KeyMap_spec [OF assms, of "prefix ?s1" "tags ?s1"] k by (simp add: key_of_def)
  have inv: "pool_inv kdb'"
    using KeyMap_pool_inv [OF assms, of "prefix ?s1" "tags ?s1"] k by simp
  have st: "newRootScope opts iv kdb
      = \<lparr>scopes = [?s1], subscopes = [(key, 0)], calls = [], keydb = kdb'\<rparr>"
    using k by (simp add: newRootScope_def Let_def map_store_def)
  show ?thesis
    unfolding st
    by (rule wf_stateI) (simp_all add: inv key wf_map_copyMap)
qed

lemma demo_wf: "wf_state demo_root" "wf_state demo_tree"
proof -
  show r: "wf_state demo_root"
    unfolding demo_root_def using pool_inv_keyDB by (rule newRootScope_wf)
  have "0 < length (scopes demo_root)" using wf_stateD(2) [OF r] by simp
  from subscope_wf(1) [OF r this wf_map_None]
  show "wf_state demo_tree" by (simp add: demo_tree_def SubScope_def)
qed

lemma demo_tree_facts:
  "1 < length (scopes demo_tree)"
  "fst (SubScope demo_tree 0 ''x'') = 1"
  "length (scopes (snd (SubScope demo_tree 0 ''x''))) = 2"
  "fst (Tagged demo_tree 1 (Some [(''host'', ''h1'')])) = 2"
  "fst (Tagged (snd (Tagged demo_tree 1 (Some [(''host'', ''h1'')]))) 1 (Some [(''host'', ''h1'')])) = 2"
  "length (scopes (snd (Tagged (snd (Tagged demo_tree 1 (Some [(''host'', ''h1'')]))) 1
      (Some [(''host'', ''h1'')])))) = 3"
  by code_simp+

lemma reportRegistryWithLock_keydb:
  "reportRegistryWithLock (st\<lparr>keydb := k\<rparr>) a = (reportRegistryWithLock st a)\<lparr>keydb := k\<rparr>"
  by (simp add: reportRegistryWithLock_def split: prod.splits)

lemma Report_keydb: "Report (st\<lparr>keydb := k\<rparr>) a = (Report st a)\<lparr>keydb := k\<rparr>"
  by (simp add: Report_def reportLoopRun_def reportRegistryWithLock_keydb)

lemma Snapshot_state: "snd (Snapshot st a) = st\<lparr>keydb := keydb (snd (Snapshot st a))\<rparr>"
  by (simp add: Snapshot_def split: prod.splits)

lemma demo_snapshots:
  "map (\<lambda>e. (cs_name (snd e), cs_value (snd e))) (snap_counters (fst (Snapshot demo_polled 0)))
     = [(''PollCount'', 3)]"
  "map (\<lambda>e. (cs_name (snd e), cs_value (snd e))) (snap_counters (fst (Snapshot demo_closed 0)))
     = [(''PollCount'', 0)]"
  by code_simp+

lemma cs_inv_alt:
  "cs_inv c s \<longleftrightarrow>
     thread_inv s t \<and> thread_inv s (\<not> t) \<and>
     prev c + (ret (cons s t) + ret (cons s (\<not> t))) = prev (shared s) \<and>
     curr c + incd s = curr (shared s)"
  by (cases t) (auto simp: cs_inv_def add.commute)

lemma quiet_inv_alt:
  "quiet_inv c s \<longleftrightarrow>
     cs_inv c s \<and> incd s = 0 \<and> thread_quiet c s t \<and> thread_quiet c s (\<not> t) \<and>
     (ret (cons s t) = 0 \<or> ret (cons s (\<not> t)) = 0)"
  by (cases t) (auto simp: quiet_inv_def)

lemma cs_inv_start: "cs_inv c (start AtLock c)"
  by (simp add: cs_inv_def thread_inv_def start_def in_cs_def not_returned_def)

lemma quiet_inv_start: "quiet_inv c (start AtLock c)"
  by (simp add: quiet_inv_def cs_inv_start) (simp add: thread_quiet_def start_def not_returned_def)

lemma cs_inv_inc: "cs_inv c s \<Longrightarrow> cs_inv c (inc_step v s)"
  unfolding cs_inv_def thread_inv_def
  by (auto simp: inc_step_def counter_Inc_def add.assoc [symmetric])

lemma not_self [simp]: "((\<not> t) = t) = False" "(t = (\<not> t)) = False"
  by auto

lemma other_thread_inv:
  assumes "thread_inv s u" and "cons s' u = cons s u"
    and "cm_holder s' = Some u \<longleftrightarrow> cm_holder s = Some u"
    and "prev (shared s') = prev (shared s) \<or> \<not> in_cs (pc (cons s u))"
  shows "thread_inv s' u"
  using assms by (auto simp: thread_inv_def in_cs_def)

lemma other_thread_quiet:
  assumes "thread_quiet c s u" and "cons s' u = cons s u"
    and "prev (shared s') = prev (shared s) \<or> prev (shared s') = curr c"
  shows "thread_quiet c s' u"
  using assms by (auto simp: thread_quiet_def)

text \<open>What one step of a consumer changes, by program counter.\<close>

lemma consumer_step_cases:
  assumes "consumer_step t s = Some s'"
  obtains
    (lock) "pc (cons s t) = AtLock" "cm_holder s = None"
      "s' = (set_cons s t ((cons s t)\<lparr>pc := AtLoadCurr\<rparr>))\<lparr>cm_holder := Some t\<rparr>"
  | (load_curr) "pc (cons s t) = AtLoadCurr"
      "s' = set_cons s t ((cons s t)\<lparr>l_curr := curr (shared s), pc := AtLoadPrev\<rparr>)"
  | (load_prev) "pc (cons s t) = AtLoadPrev"
      "s' = set_cons s t ((cons s t)\<lparr>l_prev := prev (shared s), pc := AtCompare\<rparr>)"
  | (same) "pc (cons s t) = AtCompare" "l_prev (cons s t) = l_curr (cons s t)"
      "s' = set_cons s t ((cons s t)\<lparr>ret := 0, pc := AtUnlock\<rparr>)"
  | (differ) "pc (cons s t) = AtCompare" "l_prev (cons s t) \<noteq> l_curr (cons s t)"
      "s' = set_cons s t ((cons s t)\<lparr>pc := AtStore\<rparr>)"
  | (store) "pc (cons s t) = AtStore"
      "s' = (set_cons s t ((cons s t)\<lparr>ret := l_curr (cons s t) - l_prev (cons s t),
               pc := AtUnlock\<rparr>))\<lparr>shared := (shared s)\<lparr>prev := l_curr (cons s t)\<rparr>\<rparr>"
  | (unlock) "pc (cons s t) = AtUnlock"
      "s' = (set_cons s t ((cons s t)\<lparr>pc := AtDone\<rparr>))\<lparr>cm_holder := None\<rparr>"
  using assms
  by (cases "pc (cons s t)") (auto simp: consumer_step_def Let_def split: if_splits)

lemma cs_inv_step:
  assumes i: "cs_inv c s" and st: "consumer_step t s = Some s'"
  shows "cs_inv c s'"
proof -
  from i have T: "thread_inv s t" and U: "thread_inv s (\<not> t)"
    and Q: "prev c + (ret (cons s t) + ret (cons s (\<not> t))) = prev (shared s)"
    and R: "curr c + incd s = curr (shared s)"
    unfolding cs_inv_alt [of c s t] by simp_all
  have goal: "cs_inv c s'"
    if T': "thread_inv s' t" and U': "thread_inv s' (\<not> t)"
      and Q': "prev c + (ret (cons s' t) + ret (cons s' (\<not> t))) = prev (shared s')"
      and R': "curr c + incd s' = curr (shared s')"
    unfolding cs_inv_alt [of c s' t] using that by simp
  from st show ?thesis
  proof (cases rule: consumer_step_cases)
    case lock
    have nu: "cm_holder s \<noteq> Some (\<not> t)" using lock(2) by simp
    show ?thesis
    proof (rule goal)
      show "thread_inv s' t"
        using T lock(1) by (simp add: thread_inv_def lock(3) set_cons_def in_cs_def not_returned_def)
      show "thread_inv s' (\<not> t)"
        by (rule other_thread_inv [OF U]) (simp_all add: lock(3) set_cons_def lock(2))
      show "prev c + (ret (cons s' t) + ret (cons s' (\<not> t))) = prev (shared s')"
        using Q by (simp add: lock(3) set_cons_def)
      show "curr c + incd s' = curr (shared s')" using R by (simp add: lock(3) set_cons_def)
    qed
  next
    case load_curr
    show ?thesis
    proof (rule goal)
      show "thread_inv s' t"
        using T load_curr(1)
        by (simp add: thread_inv_def load_curr(2) set_cons_def in_cs_def not_returned_def)
      show "thread_inv s' (\<not> t)"
        by (rule other_thread_inv [OF U]) (simp_all add: load_curr(2) set_cons_def)
      show "prev c + (ret (cons s' t) + ret (cons s' (\<not> t))) = prev (shared s')"
        using Q by (simp add: load_curr(2) set_cons_def)
      show "curr c + incd s' = curr (shared s')" using R by (simp add: load_curr(2) set_cons_def)
    qed
  next
    case load_prev
    show ?thesis
    proof (rule goal)
      show "thread_inv s' t"
        using T load_prev(1)
        by (simp add: thread_inv_def load_prev(2) set_cons_def in_cs_def not_returned_def)
      show "thread_inv s' (\<not> t)"
        by (rule other_thread_inv [OF U]) (simp_all add: load_prev(2) set_cons_def)
      show "prev c + (ret (cons s' t) + ret (cons s' (\<not> t))) = prev (shared s')"
        using Q by (simp add: load_prev(2) set_cons_def)
      show "curr c + incd s' = curr (shared s')" using R by (simp add: load_prev(2) set_cons_def)
    qed
  next
    case same
    from T same(1) have r0: "ret (cons s t) = 0" by (simp add: thread_inv_def not_returned_def)
    show ?thesis
    proof (rule goal)
      show "thread_inv s' t"
        using T same(1)
        by (simp add: thread_inv_def same(3) set_cons_def in_cs_def not_returned_def)
      show "thread_inv s' (\<not> t)"
        by (rule other_thread_inv [OF U]) (simp_all add: same(3) set_cons_def)
      show "prev c + (ret (cons s' t) + ret (cons s' (\<not> t))) = prev (shared s')"
        using Q r0 by (simp add: same(3) set_cons_def)
      show "curr c + incd s' = curr (shared s')" using R by (simp add: same(3) set_cons_def)
    qed
  next
    case differ
    show ?thesis
    proof (rule goal)
      show "thread_inv s' t"
        using T differ(1,2)
        by (simp add: thread_inv_def differ(3) set_cons_def in_cs_def not_returned_def)
      show "thread_inv s' (\<not> t)"
        by (rule other_thread_inv [OF U]) (simp_all add: differ(3) set_cons_def)
      show "prev c + (ret (cons s' t) + ret (cons s' (\<not> t))) = prev (shared s')"
        using Q by (simp add: differ(3) set_cons_def)
      show "curr c + incd s' = curr (shared s')" using R by (simp add: differ(3) set_cons_def)
    qed
  next
    case store
    from T store(1) have h: "cm_holder s = Some t" and lp: "l_prev (cons s t) = prev (shared s)"
      and r0: "ret (cons s t) = 0"
      by (simp_all add: thread_inv_def in_cs_def not_returned_def)
    from U h have nu: "\<not> in_cs (pc (cons s (\<not> t)))" by (simp add: thread_inv_def)
    show ?thesis
    proof (rule goal)
      show "thread_inv s' t"
        using h by (simp add: thread_inv_def store(2) set_cons_def in_cs_def not_returned_def)
      show "thread_inv s' (\<not> t)"
        by (rule other_thread_inv [OF U]) (simp_all add: store(2) set_cons_def nu)
      show "prev c + (ret (cons s' t) + ret (cons s' (\<not> t))) = prev (shared s')"
        using Q r0 lp by (simp add: store(2) set_cons_def algebra_simps)
      show "curr c + incd s' = curr (shared s')" using R by (simp add: store(2) set_cons_def)
    qed
  next
    case unlock
    from T unlock(1) have h: "cm_holder s = Some t" by (simp add: thread_inv_def in_cs_def)
    show ?thesis
    proof (rule goal)
      show "thread_inv s' t"
        by (simp add: thread_inv_def unlock(2) set_cons_def in_cs_def not_returned_def)
      show "thread_inv s' (\<not> t)"
        by (rule other_thread_inv [OF U]) (simp_all add: unlock(2) set_cons_def h)
      show "prev c + (ret (cons s' t) + ret (cons s' (\<not> t))) = prev (shared s')"
        using Q by (simp add: unlock(2) set_cons_def)
      show "curr c + incd s' = curr (shared s')" using R by (simp add: unlock(2) set_cons_def)
    qed
  qed
qed

lemma incd_step: "consumer_step t s = Some s' \<Longrightarrow> incd s' = incd s"
  by (erule consumer_step_cases) (simp_all add: set_cons_def)

lemma quiet_inv_step:
  assumes i: "quiet_inv c s" and st: "consumer_step t s = Some s'"
  shows "quiet_inv c s'"
proof -
  from i have C: "cs_inv c s" and I: "incd s = 0"
    and QT: "thread_quiet c s t" and QU: "thread_quiet c s (\<not> t)"
    and Z: "ret (cons s t) = 0 \<or> ret (cons s (\<not> t)) = 0"
    unfolding quiet_inv_alt [of c s t] by simp_all
  from C have T: "thread_inv s t" and U: "thread_inv s (\<not> t)"
    and R: "curr c + incd s = curr (shared s)"
    unfolding cs_inv_alt [of c s t] by simp_all
  have cur: "curr (shared s) = curr c" using R I by simp
  have C': "cs_inv c s'" using C st by (rule cs_inv_step)
  have I': "incd s' = 0" using incd_step [OF st] I by simp
  have goal: "quiet_inv c s'"
    if "thread_quiet c s' t" and "thread_quiet c s' (\<not> t)"
      and "ret (cons s' t) = 0 \<or> ret (cons s' (\<not> t)) = 0"
    unfolding quiet_inv_alt [of c s' t] using that C' I' by simp
  from st show ?thesis
  proof (cases rule: consumer_step_cases)
    case lock
    show ?thesis
    proof (rule goal)
      show "thread_quiet c s' t"
        by (simp add: thread_quiet_def lock(3) set_cons_def not_returned_def)
      show "thread_quiet c s' (\<not> t)"
        by (rule other_thread_quiet [OF QU]) (simp_all add: lock(3) set_cons_def)
      show "ret (cons s' t) = 0 \<or> ret (cons s' (\<not> t)) = 0"
        using Z by (simp add: lock(3) set_cons_def)
    qed
  next
    case load_curr
    show ?thesis
    proof (rule goal)
      show "thread_quiet c s' t"
        by (simp add: thread_quiet_def load_curr(2) set_cons_def not_returned_def cur)
      show "thread_quiet c s' (\<not> t)"
        by (rule other_thread_quiet [OF QU]) (simp_all add: load_curr(2) set_cons_def)
      show "ret (cons s' t) = 0 \<or> ret (cons s' (\<not> t)) = 0"
        using Z by (simp add: load_curr(2) set_cons_def)
    qed
  next
    case load_prev
    show ?thesis
    proof (rule goal)
      show "thread_quiet c s' t"
        using QT load_prev(1)
        by (simp add: thread_quiet_def load_prev(2) set_cons_def not_returned_def)
      show "thread_quiet c s' (\<not> t)"
        by (rule other_thread_quiet [OF QU]) (simp_all add: load_prev(2) set_cons_def)
      show "ret (cons s' t) = 0 \<or> ret (cons s' (\<not> t)) = 0"
        using Z by (simp add: load_prev(2) set_cons_def)
    qed
  next
    case same
    from T same(1) have lp: "l_prev (cons s t) = prev (shared s)" by (simp add: thread_inv_def)
    from QT same(1) have lc: "l_curr (cons s t) = curr c" by (simp add: thread_quiet_def)
    have pc: "prev (shared s) = curr c" using lp lc same(2) by simp
    show ?thesis
    proof (rule goal)
      show "thread_quiet c s' t"
        using pc by (simp add: thread_quiet_def same(3) set_cons_def not_returned_def)
      show "thread_quiet c s' (\<not> t)"
        by (rule other_thread_quiet [OF QU]) (simp_all add: same(3) set_cons_def)
      show "ret (cons s' t) = 0 \<or> ret (cons s' (\<not> t)) = 0"
        by (simp add: same(3) set_cons_def)
    qed
  next
    case differ
    show ?thesis
    proof (rule goal)
      show "thread_quiet c s' t"
        using QT differ(1)
        by (simp add: thread_quiet_def differ(3) set_cons_def not_returned_def)
      show "thread_quiet c s' (\<not> t)"
        by (rule other_thread_quiet [OF QU]) (simp_all add: differ(3) set_cons_def)
      show "ret (cons s' t) = 0 \<or> ret (cons s' (\<not> t)) = 0"
        using Z by (simp add: differ(3) set_cons_def)
    qed
  next
    case store
    from T store(1) have lp: "l_prev (cons s t) = prev (shared s)"
      and ne: "l_prev (cons s t) \<noteq> l_curr (cons s t)"
      by (auto simp: thread_inv_def)
    from QT store(1) have lc: "l_curr (cons s t) = curr c" by (simp add: thread_quiet_def)
    have "prev (shared s) \<noteq> curr c" using lp ne lc by simp
    with QU have "not_returned (pc (cons s (\<not> t)))" by (auto simp: thread_quiet_def)
    with U have ru: "ret (cons s (\<not> t)) = 0" by (simp add: thread_inv_def)
    show ?thesis
    proof (rule goal)
      show "thread_quiet c s' t"
        using lc by (simp add: thread_quiet_def store(2) set_cons_def not_returned_def)
      show "thread_quiet c s' (\<not> t)"
        by (rule other_thread_quiet [OF QU]) (simp_all add: store(2) set_cons_def lc)
      show "ret (cons s' t) = 0 \<or> ret (cons s' (\<not> t)) = 0"
        using ru by (simp add: store(2) set_cons_def)
    qed
  next
    case unlock
    from QT unlock(1) have pc: "prev (shared s) = curr c"
      by (simp add: thread_quiet_def not_returned_def)
    show ?thesis
    proof (rule goal)
      show "thread_quiet c s' t"
        using pc by (simp add: thread_quiet_def unlock(2) set_cons_def not_returned_def)
      show "thread_quiet c s' (\<not> t)"
        by (rule other_thread_quiet [OF QU]) (simp_all add: unlock(2) set_cons_def)
      show "ret (cons s' t) = 0 \<or> ret (cons s' (\<not> t)) = 0"
        using Z by (simp add: unlock(2) set_cons_def)
    qed
  qed
qed

lemma run_cs_inv: "cs_inv c s \<Longrightarrow> run sched s = Some s' \<Longrightarrow> cs_inv c s'"
proof (induction sched arbitrary: s)
  case Nil
  then show ?case by simp
next
  case (Cons a as)
  from Cons.prems(2) obtain s1 where a: "do_action a s = Some s1" and r: "run as s1 = Some s'"
    by (cases "do_action a s") simp_all
  have "cs_inv c s1"
  proof (cases a)
    case (Run t)
    with a Cons.prems(1) show ?thesis by (simp add: cs_inv_step)
  next
    case (IncBy v)
    with a Cons.prems(1) show ?thesis by (auto simp: cs_inv_inc)
  qed
  then show ?case using r by (rule Cons.IH)
qed

lemma run_quiet_inv:
  "quiet_inv c s \<Longrightarrow> list_all is_run sched \<Longrightarrow> run sched s = Some s' \<Longrightarrow> quiet_inv c s'"
proof (induction sched arbitrary: s)
  case Nil
  then show ?case by simp
next
  case (Cons a as)
  from Cons.prems(3) obtain s1 where a: "do_action a s = Some s1" and r: "run as s1 = Some s'"
    by (cases "do_action a s") simp_all
  from Cons.prems(2) obtain t where t: "a = Run t" and as: "list_all is_run as"
    by (cases a) simp_all
  have "quiet_inv c s1" using Cons.prems(1) a t by (simp add: quiet_inv_step)
  then show ?case using as r by (rule Cons.IH)
qed

lemma demo_runs:
  "outcome (run demo_seq (start AtLock (counter_Inc 5 newCounter))) = Some (5, 0, True)"
  "outcome (run demo_mixed (start AtLock (counter_Inc 5 newCounter))) = Some (3, 5, True)"
  "list_all is_run demo_seq"
  "run [Run True, Run False] (start AtLock (counter_Inc 5 newCounter)) = None"
  by code_simp+

lemma value_alone_double_counts:
  "outcome (run demo_race (start AtLoadCurr (counter_Inc 5 newCounter))) = Some (5, 5, True)"
  by code_simp

lemma outcomeD:
  "outcome r = Some (x, y, f) \<Longrightarrow>
   \<exists>s. r = Some s \<and> ret (cons s True) = x \<and> ret (cons s False) = y \<and> finished s = f"
  by (cases r) (auto simp: outcome_def)

section \<open>Concrete maps\<close>

lemma ab_maps:
  "wf_map (Some [(''b'', ''2''), (''a'', ''1'')])"
  "wf_map (Some [(''a'', ''1''), (''b'', ''2'')])"
  "wf_map (Some [(''a'', ''1'')])"
  "map_of (entries (Some [(''b'', ''2''), (''a'', ''1'')]))
     = map_of (entries (Some [(''a'', ''1''), (''b'', ''2'')]))"
  "map_of (entries (Some [(''b'', ''2''), (''a'', ''1'')]))
     \<noteq> map_of (entries (Some [(''a'', ''1'')]))"
  "alphabet_ok (Some [(''b'', ''2''), (''a'', ''1'')])"
  "alphabet_ok (Some [(''a'', ''1'')])"
proof -
  show "wf_map (Some [(''b'', ''2''), (''a'', ''1'')])"
    "wf_map (Some [(''a'', ''1''), (''b'', ''2'')])"
    "wf_map (Some [(''a'', ''1'')])"
    by (simp_all add: wf_map_def entries_def)
  show "map_of (entries (Some [(''b'', ''2''), (''a'', ''1'')]))
     = map_of (entries (Some [(''a'', ''1''), (''b'', ''2'')]))"
    by (rule ext) (simp add: entries_def)
  have "map_of (entries (Some [(''b'', ''2''), (''a'', ''1'')])) ''b''
     \<noteq> map_of (entries (Some [(''a'', ''1'')])) ''b''"
    by (simp add: entries_def)
  then show "map_of (entries (Some [(''b'', ''2''), (''a'', ''1'')]))
     \<noteq> map_of (entries (Some [(''a'', ''1'')]))"
    by (rule contrapos_nn) (erule fun_cong)
  show "alphabet_ok (Some [(''b'', ''2''), (''a'', ''1'')])"
    "alphabet_ok (Some [(''a'', ''1'')])"
    by (simp_all add: alphabet_ok_def str_ok_def entries_def reserved_def
        nameSplitter_def pairSplitter_def prefixSplitter_def)
qed

section \<open>Claims about counters and gauges\<close>

text \<open>
  C1. For every counter and every sequence of \<open>Inc\<close> calls performed between two
  consumptions (\<open>counter.value()\<close>), the second consumption returns exactly the sum of
  the deltas (in \<open>int64\<close> arithmetic; it is the mathematical sum of the signed deltas
  whenever that sum is representable) and sets the last-reported baseline to the current
  total; an immediately following third consumption returns 0; and the report step emits
  no \<open>ReportCounter\<close> call when the consumed delta is zero (and exactly one, carrying the
  delta, otherwise).
\<close>

theorem counter_consume_delta:
  "fst (counter_value (after_first_consumption c0 ds)) = sum_list ds
   \<and> prev (snd (counter_value (after_first_consumption c0 ds)))
       = curr (after_first_consumption c0 ds)
   \<and> curr (snd (counter_value (after_first_consumption c0 ds)))
       = curr (after_first_consumption c0 ds)
   \<and> fst (counter_value (snd (counter_value (after_first_consumption c0 ds)))) = 0
   \<and> (- (2 ^ 63) \<le> (\<Sum>d\<leftarrow>ds. sint d) \<and> (\<Sum>d\<leftarrow>ds. sint d) < 2 ^ 63 \<longrightarrow>
        sint (fst (counter_value (after_first_consumption c0 ds))) = (\<Sum>d\<leftarrow>ds. sint d))
   \<and> (fst (counter_value cz) = 0 \<longrightarrow> snd (counter_report nm tgs r cz) = r)
   \<and> (fst (counter_value cn) \<noteq> 0 \<longrightarrow>
        snd (counter_report nm tgs r cn)
          = r @ [ReportCounter nm tgs (fst (counter_value cn))])"
proof (intro conjI impI)
  show "fst (counter_value (after_first_consumption c0 ds)) = sum_list ds"
    by (rule second_consumption_delta)
  show "prev (snd (counter_value (after_first_consumption c0 ds)))
          = curr (after_first_consumption c0 ds)"
    by (simp add: counter_value_baseline)
  show "curr (snd (counter_value (after_first_consumption c0 ds)))
          = curr (after_first_consumption c0 ds)"
    by (simp add: counter_value_baseline)
  show "fst (counter_value (snd (counter_value (after_first_consumption c0 ds)))) = 0"
    by (rule counter_value_twice)
  show "sint (fst (counter_value (after_first_consumption c0 ds))) = (\<Sum>d\<leftarrow>ds. sint d)"
    if "- (2 ^ 63) \<le> (\<Sum>d\<leftarrow>ds. sint d) \<and> (\<Sum>d\<leftarrow>ds. sint d) < 2 ^ 63"
    using that by (simp add: second_consumption_delta sint_sum_list_exact)
  show "snd (counter_report nm tgs r cz) = r" if "fst (counter_value cz) = 0"
    using that by (rule counter_report_zero)
  show "snd (counter_report nm tgs r cn)
          = r @ [ReportCounter nm tgs (fst (counter_value cn))]"
    if "fst (counter_value cn) \<noteq> 0"
    using that by (rule counter_report_nonzero)
qed

theorem counter_consume_delta_witness:
  "fst (counter_value (after_first_consumption (counter_Inc 7 newCounter) [1, 1, 1])) = 3
   \<and> sint (fst (counter_value (after_first_consumption (counter_Inc 7 newCounter) [1, 1, 1]))) = 3
   \<and> fst (counter_value
        (snd (counter_value (after_first_consumption (counter_Inc 7 newCounter) [1, 1, 1])))) = 0
   \<and> fst (counter_value newCounter) = 0
   \<and> snd (counter_report ''PollCount'' (Some []) [] newCounter) = []
   \<and> fst (counter_value (counter_Inc 3 newCounter)) \<noteq> 0
   \<and> snd (counter_report ''PollCount'' (Some []) [] (counter_Inc 3 newCounter))
       = [ReportCounter ''PollCount'' (Some []) 3]"
proof -
  have z: "fst (counter_value newCounter) = 0"
    by (simp add: counter_value_def newCounter_def)
  have n: "fst (counter_value (counter_Inc 3 newCounter)) = 3"
    by (simp add: counter_value_def newCounter_def counter_Inc_def)
  have b: "- (2 ^ 63) \<le> (\<Sum>d\<leftarrow>[1, 1, 1 :: int64]. sint d)
           \<and> (\<Sum>d\<leftarrow>[1, 1, 1 :: int64]. sint d) < 2 ^ 63"
    by simp
  from counter_consume_delta
    [of "counter_Inc 7 newCounter" "[1, 1, 1]" newCounter "''PollCount''" "Some []" "[]"
        "counter_Inc 3 newCounter"]
  show ?thesis using z n b by simp
qed

text \<open>
  C7. For every gauge, \<open>Update(x)\<close> leaves the value \<open>x\<close> with the dirty flag set; the
  following consumption (\<open>gauge.report\<close>) emits exactly one \<open>ReportGauge(name, tags, x)\<close>
  and clears the flag; a second consumption with no \<open>Update\<close> in between finds the flag
  cleared and emits nothing.
\<close>

theorem gauge_update_report:
  "updated (gauge_Update x g) = 1
   \<and> gauge_value (gauge_Update x g) = x
   \<and> snd (gauge_report nm tgs r (gauge_Update x g)) = r @ [ReportGauge nm tgs x]
   \<and> updated (fst (gauge_report nm tgs r (gauge_Update x g))) = 0
   \<and> gauge_value (fst (gauge_report nm tgs r (gauge_Update x g))) = x
   \<and> gauge_report nm tgs r' (fst (gauge_report nm tgs r (gauge_Update x g)))
       = (fst (gauge_report nm tgs r (gauge_Update x g)), r')"
  by (simp add: gauge_report_def gauge_Update_def gauge_value_def Float64bits_def
      Float64frombits_def Let_def)

section \<open>Claims about the key codec\<close>

text \<open>
  C3. \<open>KeyMap(prefix, tags)\<close> is a deterministic function of the pair of prefix and tag
  set: whatever the iteration order of the map and whatever (fully reset) state earlier
  calls left in the pools, the result is the same; it is the string of the stated
  algorithm (sorted keys, the prefix and the prefix separator when the prefix is
  non-empty, \<open>key=value\<close> pairs joined by the pair separator); the call leaves the pools
  fully reset; and the key of \<open>{b:2, a:1}\<close> equals the key of \<open>{a:1, b:2}\<close> and differs
  from the key of \<open>{a:1}\<close>.
\<close>

theorem KeyMap_deterministic:
  assumes "pool_inv kdb1" and "pool_inv kdb2" and "wf_map m1" and "wf_map m2"
    and "map_of (entries m1) = map_of (entries m2)"
  shows "fst (KeyMap kdb1 pfx m1) = fst (KeyMap kdb2 pfx m2)
    \<and> fst (KeyMap kdb1 pfx m1) = Identity_spec pfx (entries m1)
    \<and> pool_inv (snd (KeyMap kdb1 pfx m1))
    \<and> fst (KeyMap kdb1 pfx (Some [(''b'', ''2''), (''a'', ''1'')]))
        = fst (KeyMap kdb2 pfx (Some [(''a'', ''1''), (''b'', ''2'')]))
    \<and> fst (KeyMap kdb1 pfx (Some [(''b'', ''2''), (''a'', ''1'')]))
        \<noteq> fst (KeyMap kdb2 pfx (Some [(''a'', ''1'')]))"
proof (intro conjI)
  show "fst (KeyMap kdb1 pfx m1) = fst (KeyMap kdb2 pfx m2)"
    using assms by (rule KeyMap_order_indep)
  show "fst (KeyMap kdb1 pfx m1) = Identity_spec pfx (entries m1)"
    using assms(1) by (rule KeyMap_spec)
  show "pool_inv (snd (KeyMap kdb1 pfx m1))"
    using assms(1) by (rule KeyMap_pool_inv)
  show "fst (KeyMap kdb1 pfx (Some [(''b'', ''2''), (''a'', ''1'')]))
        = fst (KeyMap kdb2 pfx (Some [(''a'', ''1''), (''b'', ''2'')]))"
    using assms(1,2) ab_maps(1,2,4) by (rule KeyMap_order_indep)
  show "fst (KeyMap kdb1 pfx (Some [(''b'', ''2''), (''a'', ''1'')]))
        \<noteq> fst (KeyMap kdb2 pfx (Some [(''a'', ''1'')]))"
    using KeyMap_inj [OF assms(1,2) ab_maps(6,7), of pfx pfx] ab_maps(5) by blast
qed

theorem KeyMap_deterministic_witness:
  "pool_inv keyDB
   \<and> pool_inv (snd (KeyMap keyDB ''mem'' (Some [(''x'', ''1'')])))
   \<and> wf_map (Some [(''host'', ''h1''), (''env'', ''prod'')])
   \<and> wf_map (Some [(''env'', ''prod''), (''host'', ''h1'')])
   \<and> fst (KeyMap keyDB ''cpu'' (Some [(''host'', ''h1''), (''env'', ''prod'')]))
       = fst (KeyMap (snd (KeyMap keyDB ''mem'' (Some [(''x'', ''1'')]))) ''cpu''
               (Some [(''env'', ''prod''), (''host'', ''h1'')]))
   \<and> fst (KeyMap keyDB ''cpu'' (Some [(''host'', ''h1''), (''env'', ''prod'')]))
       = ''cpu+env=prod,host=h1''"
proof -
  let ?m1 = "Some [(''host'', ''h1''), (''env'', ''prod'')]"
  let ?m2 = "Some [(''env'', ''prod''), (''host'', ''h1'')]"
  let ?kdb2 = "snd (KeyMap keyDB ''mem'' (Some [(''x'', ''1'')]))"
  have i1: "pool_inv keyDB" by (rule pool_inv_keyDB)
  have i2: "pool_inv ?kdb2" using i1 by (rule KeyMap_pool_inv)
  have w1: "wf_map ?m1" and w2: "wf_map ?m2" by (simp_all add: wf_map_def entries_def)
  have e: "map_of (entries ?m1) = map_of (entries ?m2)"
    by (rule ext) (simp add: entries_def)
  have s: "Identity_spec ''cpu'' (entries ?m1) = ''cpu+env=prod,host=h1''"
    by code_simp
  note d = KeyMap_deterministic [OF i1 i2 w1 w2 e, of "''cpu''"]
  have c1: "fst (KeyMap keyDB ''cpu'' ?m1) = fst (KeyMap ?kdb2 ''cpu'' ?m2)"
    using d by (rule conjunct1)
  have c2: "fst (KeyMap keyDB ''cpu'' ?m1) = ''cpu+env=prod,host=h1''"
    using d [THEN conjunct2, THEN conjunct1] s by (simp only:)
  show ?thesis by (intro conjI i1 i2 w1 w2 c1 c2)
qed

text \<open>
  C4. \<open>KeyMap\<close> is injective on the expected alphabet: two pairs of prefix and tag set
  that differ, where no tag key or value contains \<open>=\<close>, \<open>,\<close> or \<open>+\<close>, never get the same
  key. The prefix is not restricted.
\<close>

theorem KeyMap_injective:
  assumes "pool_inv kdb1" and "pool_inv kdb2" and "alphabet_ok m1" and "alphabet_ok m2"
    and "prefix1 \<noteq> prefix2 \<or> map_of (entries m1) \<noteq> map_of (entries m2)"
  shows "fst (KeyMap kdb1 prefix1 m1) \<noteq> fst (KeyMap kdb2 prefix2 m2)"
  using KeyMap_inj [OF assms(1-4), of prefix1 prefix2] assms(5) by blast

theorem KeyMap_injective_witness:
  "pool_inv keyDB
   \<and> alphabet_ok (Some [(''host'', ''h1'')]) \<and> alphabet_ok (Some [(''host'', ''h2'')])
   \<and> map_of (entries (Some [(''host'', ''h1'')])) \<noteq> map_of (entries (Some [(''host'', ''h2'')]))
   \<and> fst (KeyMap keyDB ''cpu'' (Some [(''host'', ''h1'')]))
        \<noteq> fst (KeyMap keyDB ''cpu'' (Some [(''host'', ''h2'')]))"
proof -
  let ?m1 = "Some [(''host'', ''h1'')]"
  let ?m2 = "Some [(''host'', ''h2'')]"
  have i: "pool_inv keyDB" by (rule pool_inv_keyDB)
  have a1: "alphabet_ok ?m1" and a2: "alphabet_ok ?m2"
    by (simp_all add: alphabet_ok_def str_ok_def entries_def reserved_def
        nameSplitter_def pairSplitter_def prefixSplitter_def)
  have "map_of (entries ?m1) ''host'' \<noteq> map_of (entries ?m2) ''host''"
    by (simp add: entries_def)
  then have d: "map_of (entries ?m1) \<noteq> map_of (entries ?m2)"
    by (rule contrapos_nn) (erule fun_cong)
  have c: "fst (KeyMap keyDB ''cpu'' ?m1) \<noteq> fst (KeyMap keyDB ''cpu'' ?m2)"
    using i i a1 a2 disjI2 [OF d] by (rule KeyMap_injective)
  show ?thesis by (intro conjI i a1 a2 d c)
qed

section \<open>Claims about the report loop\<close>

text \<open>
  C2, as stated: every flush pass invokes the reporter's \<open>Flush()\<close> exactly once, after
  all scopes of the registry have been visited. This fails: \<open>scope.report\<close> ends with
  \<open>r.Flush()\<close>, so a pass over a registry of two scopes (a root and one child) calls
  \<open>Flush\<close> twice.
\<close>

theorem flush_counterexample:
  "\<not> (count_list (pass_calls demo_tree (Report demo_tree 0)) Flush = 1)"
proof -
  have "count_list (pass_calls demo_tree (Report demo_tree 0)) Flush = 2"
    by code_simp
  then show ?thesis by simp
qed

text \<open>
  C2, amended. Every flush pass that runs on a scope with a reporter (a manual
  \<open>Report()\<close> or a timer tick on a scope that is not closed, or the final pass of
  \<open>Close()\<close>) invokes the reporter's \<open>Flush()\<close> once for every scope registered in the
  registry: the visit of each scope forwards that scope's counter deltas and dirty gauges
  and then calls \<open>Flush\<close>. The calls of the pass are appended to the earlier calls, the
  last call of a pass is a \<open>Flush\<close>, and a registry holding one scope gets exactly one
  \<open>Flush\<close> per pass.
\<close>

theorem flush_once_per_scope:
  assumes rep: "reporter (scopes st ! a) \<noteq> None"
    and nc: "\<not> closed (status (scopes st ! a))"
  shows "count_list (pass_calls st (Report st a)) Flush = length (subscopes st)
    \<and> calls (Report st a) = calls st @ pass_calls st (Report st a)
    \<and> (subscopes st \<noteq> [] \<longrightarrow> last (calls (Report st a)) = Flush)
    \<and> (length (subscopes st) = 1 \<longrightarrow> count_list (pass_calls st (Report st a)) Flush = 1)
    \<and> reportLoop_iter CaseTicker st a = Some (True, Report st a)
    \<and> (a < length (scopes st) \<and> quit (status (scopes st ! a)) = ChanOpen \<longrightarrow>
         (\<exists>res st'. Close st a = Inr (res, st')
            \<and> count_list (pass_calls st st') Flush = length (subscopes st)))
    \<and> (\<exists>evs. snd (scope_report s r) = r @ evs @ [Flush] \<and> no_flush evs)"
proof -
  have R: "Report st a = reportRegistryWithLock st a"
    using nc by (simp add: Report_def reportLoopRun_def)
  from pass_registry [OF rep] obtain evs where
    evs: "calls (reportRegistryWithLock st a) = calls st @ evs"
      "count_list evs Flush = length (subscopes st)"
      "subscopes st \<noteq> [] \<longrightarrow> evs \<noteq> [] \<and> last evs = Flush"
    by blast
  have pc: "pass_calls st (Report st a) = evs"
    using evs(1) by (simp add: R pass_calls_append)
  have c1: "count_list (pass_calls st (Report st a)) Flush = length (subscopes st)"
    using evs(2) pc by simp
  have c2: "calls (Report st a) = calls st @ pass_calls st (Report st a)"
    using evs(1) pc R by simp
  have c3: "subscopes st \<noteq> [] \<longrightarrow> last (calls (Report st a)) = Flush"
    using evs(1,3) R by simp
  have c4: "length (subscopes st) = 1 \<longrightarrow> count_list (pass_calls st (Report st a)) Flush = 1"
    using c1 by simp
  have c5: "reportLoop_iter CaseTicker st a = Some (True, Report st a)"
    by (simp add: reportLoop_iter_def Report_def)
  have c6: "\<exists>res st'. Close st a = Inr (res, st')
            \<and> count_list (pass_calls st st') Flush = length (subscopes st)"
    if h: "a < length (scopes st) \<and> quit (status (scopes st ! a)) = ChanOpen"
  proof -
    have rep': "reporter (scopes (closing st a) ! a) \<noteq> None"
      using rep by (simp add: closing_def set_status_reporter)
    from pass_registry [OF rep'] obtain ev' where
      ev': "calls (reportRegistryWithLock (closing st a) a) = calls st @ ev'"
        "count_list ev' Flush = length (subscopes st)"
      by (auto simp: closing_def set_status_fields)
    let ?st' = "(reportRegistryWithLock (closing st a) a)
            \<lparr>calls := calls (reportRegistryWithLock (closing st a) a)
                        @ closer_calls (reporter (scopes st ! a))\<rparr>"
    have "calls ?st' = calls st @ (ev' @ closer_calls (reporter (scopes st ! a)))"
      using ev'(1) by simp
    then have "pass_calls st ?st' = ev' @ closer_calls (reporter (scopes st ! a))"
      by (rule pass_calls_append)
    then have "count_list (pass_calls st ?st') Flush = length (subscopes st)"
      using ev'(2) by (simp add: closer_calls_no_flush)
    with Close_open [of a st] h nc show ?thesis by blast
  qed
  from c1 c2 c3 c4 c5 c6 scope_report_calls [of s r] show ?thesis by blast
qed

theorem flush_once_per_scope_witness:
  "reporter (scopes demo_polled ! 0) \<noteq> None
   \<and> \<not> closed (status (scopes demo_polled ! 0))
   \<and> count_list (pass_calls demo_polled (Report demo_polled 0)) Flush = 1
   \<and> calls (Report demo_polled 0) = [ReportCounter ''PollCount'' (Some []) 3, Flush]"
proof -
  note t = flush_once_per_scope [OF demo_polled_facts(2) demo_polled_facts(3)]
  have "count_list (pass_calls demo_polled (Report demo_polled 0)) Flush
          = length (subscopes demo_polled)"
    using t by (rule conjunct1)
  then have "count_list (pass_calls demo_polled (Report demo_polled 0)) Flush = 1"
    by (simp only: demo_polled_facts(5))
  then show ?thesis
    by (intro conjI demo_polled_facts(2) demo_polled_facts(3) demo_polled_facts(7))
qed

text \<open>
  C5. \<open>Close()\<close> on a running root scope (not closed, its quit channel open) does not
  panic: it marks the scope closed, closes the quit channel (which ends the timer loop at
  its next iteration), performs one flush pass over the registry in that state, then
  calls the reporter's own \<open>Close\<close> when the reporter has one, and returns. A second
  \<open>Close()\<close> returns \<open>nil\<close> and leaves the state, the reporter's calls included, as it
  was; so does every later one, since it starts from the same state.
\<close>

theorem Close_idempotent:
  assumes a: "a < length (scopes st)"
    and nc: "\<not> closed (status (scopes st ! a))"
    and q: "quit (status (scopes st ! a)) = ChanOpen"
  shows "\<exists>res st1. Close st a = Inr (res, st1)
     \<and> status (scopes st1 ! a) = \<lparr>closed = True, quit = ChanClosed\<rparr>
     \<and> calls st1 = calls (reportRegistryWithLock (closing st a) a)
                     @ closer_calls (reporter (scopes st ! a))
     \<and> (\<exists>evs. calls (reportRegistryWithLock (closing st a) a) = calls st @ evs
            \<and> (reporter (scopes st ! a) \<noteq> None \<longrightarrow>
                  count_list evs Flush = length (subscopes st))
            \<and> (reporter (scopes st ! a) = None \<longrightarrow> evs = []))
     \<and> reportLoop_iter CaseQuit st1 a = Some (False, st1)
     \<and> Close st1 a = Inr (None, st1)
     \<and> Report st1 a = st1"
proof -
  let ?st3 = "reportRegistryWithLock (closing st a) a"
  let ?st1 = "?st3\<lparr>calls := calls ?st3 @ closer_calls (reporter (scopes st ! a))\<rparr>"
  have C: "Close st a = Inr (closer_result (reporter (scopes st ! a)), ?st1)"
    using a nc q by (rule Close_open)
  have S: "status (scopes ?st1 ! a) = \<lparr>closed = True, quit = ChanClosed\<rparr>"
    using Close_open_status [OF a] by simp
  have K: "calls ?st1 = calls ?st3 @ closer_calls (reporter (scopes st ! a))" by simp
  have E: "\<exists>evs. calls ?st3 = calls st @ evs
            \<and> (reporter (scopes st ! a) \<noteq> None \<longrightarrow> count_list evs Flush = length (subscopes st))
            \<and> (reporter (scopes st ! a) = None \<longrightarrow> evs = [])"
  proof (cases "reporter (scopes st ! a) = None")
    case True
    then have "reporter (scopes (closing st a) ! a) = None"
      by (simp add: closing_def set_status_reporter)
    then have "calls ?st3 = calls st"
      by (simp add: reportRegistryWithLock_def closing_def set_status_fields)
    with True show ?thesis by simp
  next
    case False
    then have "reporter (scopes (closing st a) ! a) \<noteq> None"
      by (simp add: closing_def set_status_reporter)
    from pass_registry [OF this] False show ?thesis
      by (auto simp: closing_def set_status_fields)
  qed
  have cl: "closed (status (scopes ?st1 ! a))" using S by simp
  have C2: "Close ?st1 a = Inr (None, ?st1)" using cl by (rule Close_closed)
  have R: "Report ?st1 a = ?st1" using cl by (rule closed_Report)
  have Q: "reportLoop_iter CaseQuit ?st1 a = Some (False, ?st1)"
    using S by (simp add: reportLoop_iter_def)
  show ?thesis
    apply (rule exI [where x = "closer_result (reporter (scopes st ! a))"])
    apply (rule exI [where x = ?st1])
    apply (intro conjI C S K E Q C2 R)
    done
qed

theorem Close_idempotent_witness:
  "0 < length (scopes demo_polled)
   \<and> \<not> closed (status (scopes demo_polled ! 0))
   \<and> quit (status (scopes demo_polled ! 0)) = ChanOpen
   \<and> (\<exists>res st1. Close demo_polled 0 = Inr (res, st1)
        \<and> calls st1 = [ReportCounter ''PollCount'' (Some []) 3, Flush]
        \<and> Close st1 0 = Inr (None, st1))"
proof -
  from Close_idempotent [OF demo_polled_facts(1) demo_polled_facts(3) demo_polled_facts(4)]
  obtain res st1 where
    c: "Close demo_polled 0 = Inr (res, st1)"
    and k: "calls st1 = calls (reportRegistryWithLock (closing demo_polled 0) 0)
                     @ closer_calls (reporter (scopes demo_polled ! 0))"
    and c2: "Close st1 0 = Inr (None, st1)"
    by blast
  have "calls st1 = [ReportCounter ''PollCount'' (Some []) 3, Flush]"
    using k by (simp only: demo_polled_facts(8))
  with c c2 have "\<exists>res st1. Close demo_polled 0 = Inr (res, st1)
        \<and> calls st1 = [ReportCounter ''PollCount'' (Some []) 3, Flush]
        \<and> Close st1 0 = Inr (None, st1)" by blast
  then show ?thesis
    by (intro conjI demo_polled_facts(1) demo_polled_facts(3) demo_polled_facts(4))
qed

text \<open>
  C10, as stated: once \<open>Close()\<close> has returned on a root scope, every subsequent
  \<open>Report()\<close> call is a no-op and the reporter is never invoked again. This fails for
  \<open>Report()\<close> called on a derived scope: \<open>newSubscope\<close> gives every child a \<open>status\<close> of
  its own with \<open>closed = false\<close>, \<open>Close()\<close> sets the flag of the root only, and
  \<open>reportLoopRun\<close> tests the flag of the scope it is called on. After \<open>Close()\<close> on the
  root, \<open>Report()\<close> on the child runs a full pass over the shared registry: the reporter
  gets a \<open>Flush\<close> for each scope, and the delta of an \<open>Inc(4)\<close> made after the close.
\<close>

theorem report_after_close_counterexample:
  "Close demo_tree 0 = Inr (None, demo_tree_closed)
   \<and> closed (status (scopes demo_child_pending ! 0))
   \<and> pass_calls demo_tree_closed (Report demo_tree_closed 1) = [Flush, Flush]
   \<and> pass_calls demo_child_pending (Report demo_child_pending 1)
        = [Flush, ReportCounter ''x.PollCount'' (Some []) 4, Flush]"
  by code_simp

text \<open>
  C10, amended. Once \<open>Close()\<close> has returned on a scope, that scope is closed, and every
  later \<open>Report()\<close> on that same scope and every later iteration of its timer loop, in
  any number and order, observes the closed flag and leaves the state unchanged: through
  them the reporter receives no further \<open>ReportCounter\<close>, \<open>ReportGauge\<close> or \<open>Flush\<close>.
\<close>

theorem closed_scope_silent:
  assumes c: "Close st a = Inr (res, st1)" and a: "a < length (scopes st)"
  shows "closed (status (scopes st1 ! a))
     \<and> Report st1 a = st1
     \<and> (\<forall>sel b st2. reportLoop_iter sel st1 a = Some (b, st2) \<longrightarrow> st2 = st1)
     \<and> exec_ops a ops st1 = st1
     \<and> calls (exec_ops a ops st1) = calls st1"
proof -
  have cl: "closed (status (scopes st1 ! a))"
  proof (cases "closed (status (scopes st ! a))")
    case True
    with c have "st1 = st" by (simp add: Close_closed)
    with True show ?thesis by simp
  next
    case False
    from Close_Inr_open [OF c False a] have q: "quit (status (scopes st ! a)) = ChanOpen" .
    let ?st3 = "reportRegistryWithLock (closing st a) a"
    from Close_open [OF a False q] c
    have "st1 = ?st3\<lparr>calls := calls ?st3 @ closer_calls (reporter (scopes st ! a))\<rparr>" by simp
    then show ?thesis using Close_open_status [OF a] by simp
  qed
  have r: "Report st1 a = st1" using cl by (rule closed_Report)
  have i: "\<forall>sel b st2. reportLoop_iter sel st1 a = Some (b, st2) \<longrightarrow> st2 = st1"
    using closed_iter [OF cl] by blast
  have x: "exec_ops a ops st1 = st1" using cl by (rule closed_exec_ops)
  from cl r i x show ?thesis by simp
qed

theorem closed_scope_silent_witness:
  "Close demo_polled 0 = Inr (None, demo_closed)
   \<and> 0 < length (scopes demo_polled)
   \<and> reportLoop_iter CaseQuit demo_closed 0 = Some (False, demo_closed)
   \<and> reportLoop_iter CaseTicker demo_closed 0 = Some (True, demo_closed)
   \<and> calls (exec_ops 0 [OpReport, OpTick CaseTicker, OpReport, OpTick CaseQuit] demo_closed)
        = [ReportCounter ''PollCount'' (Some []) 3, Flush]"
proof -
  note t = closed_scope_silent [OF demo_closed_facts(1) demo_polled_facts(1),
      of "[OpReport, OpTick CaseTicker, OpReport, OpTick CaseQuit]"]
  have cl: "closed (status (scopes demo_closed ! 0))" using t by (rule conjunct1)
  have i: "\<forall>sel b st2. reportLoop_iter sel demo_closed 0 = Some (b, st2) \<longrightarrow> st2 = demo_closed"
    using t by blast
  have q: "quit (status (scopes demo_closed ! 0)) = ChanClosed" by code_simp
  have i1: "reportLoop_iter CaseQuit demo_closed 0 = Some (False, demo_closed)"
    using q by (simp add: reportLoop_iter_def)
  have i2: "reportLoop_iter CaseTicker demo_closed 0 = Some (True, demo_closed)"
    using cl by (simp add: reportLoop_iter_def reportLoopRun_def)
  have "calls (exec_ops 0 [OpReport, OpTick CaseTicker, OpReport, OpTick CaseQuit] demo_closed)
          = calls demo_closed"
    using t by blast
  then have k: "calls (exec_ops 0 [OpReport, OpTick CaseTicker, OpReport, OpTick CaseQuit] demo_closed)
          = [ReportCounter ''PollCount'' (Some []) 3, Flush]"
    by (simp only: demo_closed_facts(2))
  show ?thesis
    by (intro conjI demo_closed_facts(1) demo_polled_facts(1) i1 i2 k)
qed

section \<open>Claims about scope derivation\<close>

text \<open>
  C6. In a well-formed scope tree (pools reset, every scope object registered under the
  key of its own prefix and tags, registry pointers valid), two scopes with equal prefix
  and equal tag set are the same object; \<open>SubScope(name)\<close> and \<open>Tagged(tags)\<close> with the same
  arguments from such scopes return the same scope object; repeating a derivation returns
  the object of the first call and creates nothing; \<open>Tagged({})\<close> (and \<open>Tagged(nil)\<close>)
  returns the scope it is called on and leaves heap and registry as they were; and every
  derivation keeps the tree well-formed, so that at most one scope exists per identity.
\<close>

theorem derivation_deduplicated:
  assumes wf: "wf_state st" and a: "a < length (scopes st)" and b: "b < length (scopes st)"
    and p: "prefix (scopes st ! a) = prefix (scopes st ! b)"
    and t: "map_of (entries (tags (scopes st ! a))) = map_of (entries (tags (scopes st ! b)))"
  shows "a = b
    \<and> fst (SubScope st a nm) = fst (SubScope st b nm)
    \<and> fst (Tagged st a tgs) = fst (Tagged st b tgs)
    \<and> fst (SubScope (snd (SubScope st a nm)) b nm) = fst (SubScope st a nm)
    \<and> scopes (snd (SubScope (snd (SubScope st a nm)) b nm)) = scopes (snd (SubScope st a nm))
    \<and> fst (Tagged (snd (Tagged st a tgs)) b tgs) = fst (Tagged st a tgs)
    \<and> scopes (snd (Tagged (snd (Tagged st a tgs)) b tgs)) = scopes (snd (Tagged st a tgs))
    \<and> fst (Tagged st a (Some [])) = a
    \<and> fst (Tagged st a None) = a
    \<and> scopes (snd (Tagged st a (Some []))) = scopes st
    \<and> subscopes (snd (Tagged st a (Some []))) = subscopes st
    \<and> wf_state (snd (SubScope st a nm))
    \<and> wf_state (snd (Tagged st a tgs))"
proof -
  have ab: "a = b" using wf a b p t by (rule same_scope)
  let ?sp = "fullyQualifiedName (scopes st ! a) nm"
  let ?tp = "prefix (scopes st ! a)"
  note ws = subscope_wf [OF wf a wf_map_None, of ?sp]
  note wt = subscope_wf [OF wf a wf_map_copyMap, of ?tp tgs]
  note ts = subscope_twice [OF wf a wf_map_None, of ?sp]
  note tt = subscope_twice [OF wf a wf_map_copyMap, of ?tp tgs]
  have s2: "SubScope (snd (SubScope st a nm)) a nm
      = subscope (snd (subscope st a ?sp None)) a ?sp None"
    by (simp add: SubScope_def ws(4))
  have t2: "Tagged (snd (Tagged st a tgs)) a tgs
      = subscope (snd (subscope st a ?tp (copyMap tgs))) a ?tp (copyMap tgs)"
    by (simp add: Tagged_def wt(4))
  have c4: "fst (SubScope (snd (SubScope st a nm)) a nm) = fst (SubScope st a nm)"
    unfolding s2 using ts(1) by (simp add: SubScope_def)
  have c5: "scopes (snd (SubScope (snd (SubScope st a nm)) a nm)) = scopes (snd (SubScope st a nm))"
    unfolding s2 using ts(2) by (simp add: SubScope_def)
  have c6: "fst (Tagged (snd (Tagged st a tgs)) a tgs) = fst (Tagged st a tgs)"
    unfolding t2 using tt(1) by (simp add: Tagged_def)
  have c7: "scopes (snd (Tagged (snd (Tagged st a tgs)) a tgs)) = scopes (snd (Tagged st a tgs))"
    unfolding t2 using tt(2) by (simp add: Tagged_def)
  note te = Tagged_empty [OF wf a]
  have c12: "wf_state (snd (SubScope st a nm))" using ws(1) by (simp add: SubScope_def)
  have c13: "wf_state (snd (Tagged st a tgs))" using wt(1) by (simp add: Tagged_def)
  show ?thesis
    unfolding ab [symmetric]
    by (intro conjI refl c4 c5 c6 c7 te c12 c13)
qed

theorem derivation_deduplicated_witness:
  "wf_state demo_tree \<and> 1 < length (scopes demo_tree)
   \<and> fst (Tagged demo_tree 1 (Some [])) = 1
   \<and> fst (Tagged demo_tree 1 (Some [(''host'', ''h1'')])) = 2
   \<and> fst (Tagged (snd (Tagged demo_tree 1 (Some [(''host'', ''h1'')]))) 1
            (Some [(''host'', ''h1'')])) = 2
   \<and> fst (SubScope (snd (SubScope demo_tree 0 ''x'')) 0 ''x'') = 1
   \<and> length (scopes (snd (SubScope demo_tree 0 ''x''))) = 2"
proof -
  note t1 = derivation_deduplicated [OF demo_wf(2) demo_tree_facts(1) demo_tree_facts(1) refl refl,
      of "''x''" "Some [(''host'', ''h1'')]"]
  have z: "0 < length (scopes demo_tree)" using demo_tree_facts(1) by (rule less_trans [OF zero_less_one])
  note t0 = derivation_deduplicated [OF demo_wf(2) z z refl refl,
      of "''x''" "Some [(''host'', ''h1'')]"]
  have c1: "fst (Tagged demo_tree 1 (Some [])) = 1" using t1 by blast
  have "fst (Tagged (snd (Tagged demo_tree 1 (Some [(''host'', ''h1'')]))) 1
            (Some [(''host'', ''h1'')])) = fst (Tagged demo_tree 1 (Some [(''host'', ''h1'')]))"
    using t1 by blast
  then have c3: "fst (Tagged (snd (Tagged demo_tree 1 (Some [(''host'', ''h1'')]))) 1
            (Some [(''host'', ''h1'')])) = 2"
    by (simp only: demo_tree_facts(4))
  have "fst (SubScope (snd (SubScope demo_tree 0 ''x'')) 0 ''x'') = fst (SubScope demo_tree 0 ''x'')"
    using t0 by blast
  then have c4: "fst (SubScope (snd (SubScope demo_tree 0 ''x'')) 0 ''x'') = 1"
    by (simp only: demo_tree_facts(2))
  show ?thesis
    by (intro conjI demo_wf(2) demo_tree_facts(1) c1 demo_tree_facts(4) c3 c4 demo_tree_facts(3))
qed

section \<open>Claims about snapshots\<close>

text \<open>
  C8, as stated: \<open>counter.snapshot()\<close> returns the running total, the sum of all \<open>Inc\<close>
  deltas since the counter was created. This fails once the counter has been reported:
  after \<open>Inc(5)\<close> and one consumption the snapshot is 0, not 5.
\<close>

theorem snapshot_total_counterexample:
  "\<not> (counter_snapshot (snd (counter_value (incs [5] newCounter))) = sum_list [5])"
  by (simp add: counter_snapshot_def counter_value_def newCounter_def counter_Inc_def)

text \<open>
  C8, amended. \<open>counter.snapshot()\<close> returns \<open>curr - prev\<close>: the sum of the \<open>Inc\<close>
  deltas since the last consumption (since creation when the counter has never been
  consumed), which is exactly what the next consumption would return. It only reads the
  counter. \<open>Snapshot()\<close> leaves every scope, the registry and the reporter's calls as they
  were (it only uses the key pools), so a following flush pass does what it would have
  done without the snapshot. On the example root the snapshot shows 3 before the report
  and 0 after it.
\<close>

theorem counter_snapshot_since_report:
  "counter_snapshot (incs ds newCounter) = sum_list ds
   \<and> counter_snapshot (after_first_consumption c0 ds) = sum_list ds
   \<and> counter_snapshot c = fst (counter_value c)
   \<and> scopes (snd (Snapshot st a)) = scopes st
   \<and> subscopes (snd (Snapshot st a)) = subscopes st
   \<and> calls (snd (Snapshot st a)) = calls st
   \<and> Report (snd (Snapshot st a)) a = (Report st a)\<lparr>keydb := keydb (snd (Snapshot st a))\<rparr>
   \<and> map (\<lambda>e. (cs_name (snd e), cs_value (snd e))) (snap_counters (fst (Snapshot demo_polled 0)))
        = [(''PollCount'', 3)]
   \<and> map (\<lambda>e. (cs_name (snd e), cs_value (snd e))) (snap_counters (fst (Snapshot demo_closed 0)))
        = [(''PollCount'', 0)]"
proof (intro conjI)
  show "counter_snapshot (incs ds newCounter) = sum_list ds"
    by (simp add: counter_snapshot_def incs_curr incs_prev newCounter_def)
  show "counter_snapshot (after_first_consumption c0 ds) = sum_list ds"
    by (simp add: counter_snapshot_def after_first_consumption_fields)
  show "counter_snapshot c = fst (counter_value c)"
    by (simp add: counter_snapshot_def counter_value_delta)
  show "scopes (snd (Snapshot st a)) = scopes st"
    by (subst Snapshot_state) simp
  show "subscopes (snd (Snapshot st a)) = subscopes st"
    by (subst Snapshot_state) simp
  show "calls (snd (Snapshot st a)) = calls st"
    by (subst Snapshot_state) simp
  show "Report (snd (Snapshot st a)) a = (Report st a)\<lparr>keydb := keydb (snd (Snapshot st a))\<rparr>"
    by (subst Snapshot_state) (simp only: Report_keydb)
qed (rule demo_snapshots)+

section \<open>Claims about concurrent consumption\<close>

text \<open>
  C9. Two consumptions of one counter that run concurrently, as \<open>scope.report\<close> runs them
  under the scope's counter mutex, never count an update twice and never lose one: in
  every interleaving with any number of concurrent \<open>Inc\<close> calls, the deltas returned so
  far plus what is still pending equal what was pending at the start plus all increments;
  the two consumers are never inside \<open>value()\<close> together; and when no \<open>Inc\<close> falls between
  them (both consume the same interval of updates) at most one of them returns a nonzero
  delta, the two deltas adding up to what was pending. The mutex is what gives this:
  \<open>value()\<close> alone, raced by two callers, returns the same delta twice
  (\<open>value_alone_double_counts\<close>).
\<close>

theorem consumption_serialised:
  assumes "run sched (start AtLock c) = Some s"
  shows "ret (cons s True) + ret (cons s False) + (curr (shared s) - prev (shared s))
           = (curr c - prev c) + incd s
     \<and> \<not> (in_cs (pc (cons s True)) \<and> in_cs (pc (cons s False)))
     \<and> (list_all is_run sched \<longrightarrow> ret (cons s True) = 0 \<or> ret (cons s False) = 0)
     \<and> (list_all is_run sched \<and> finished s \<longrightarrow>
          ret (cons s True) + ret (cons s False) = curr c - prev c)"
proof -
  have C: "cs_inv c s" using cs_inv_start assms by (rule run_cs_inv)
  then have Q: "prev c + (ret (cons s True) + ret (cons s False)) = prev (shared s)"
    and R: "curr c + incd s = curr (shared s)"
    and T: "thread_inv s True" "thread_inv s False"
    by (simp_all add: cs_inv_def)
  have c1: "ret (cons s True) + ret (cons s False) + (curr (shared s) - prev (shared s))
           = (curr c - prev c) + incd s"
    unfolding Q [symmetric] R [symmetric] by (simp add: algebra_simps)
  have c2: "\<not> (in_cs (pc (cons s True)) \<and> in_cs (pc (cons s False)))"
    using T by (auto simp: thread_inv_def)
  have c3: "ret (cons s True) = 0 \<or> ret (cons s False) = 0" if "list_all is_run sched"
    using run_quiet_inv [OF quiet_inv_start that assms] by (simp add: quiet_inv_def)
  have c4: "ret (cons s True) + ret (cons s False) = curr c - prev c"
    if h: "list_all is_run sched \<and> finished s"
  proof -
    from h have q: "quiet_inv c s" using run_quiet_inv [OF quiet_inv_start _ assms] by simp
    from h have "pc (cons s True) = AtDone" by (simp add: finished_def)
    with q have "prev (shared s) = curr c"
      by (simp add: quiet_inv_def thread_quiet_def not_returned_def)
    with Q show ?thesis by (simp add: algebra_simps)
  qed
  from c1 c2 c3 c4 show ?thesis by blast
qed

theorem consumption_serialised_witness:
  "(\<exists>s. run demo_seq (start AtLock (counter_Inc 5 newCounter)) = Some s
        \<and> list_all is_run demo_seq \<and> finished s
        \<and> ret (cons s True) = 5 \<and> ret (cons s False) = 0
        \<and> ret (cons s True) + ret (cons s False)
            = curr (counter_Inc 5 newCounter) - prev (counter_Inc 5 newCounter))"
proof -
  from outcomeD [OF demo_runs(1)] obtain s where
    s: "run demo_seq (start AtLock (counter_Inc 5 newCounter)) = Some s"
    and r: "ret (cons s True) = 5" "ret (cons s False) = 0" and f: "finished s"
    by auto
  from consumption_serialised [OF s] demo_runs(3) f
  have "ret (cons s True) + ret (cons s False)
            = curr (counter_Inc 5 newCounter) - prev (counter_Inc 5 newCounter)"
    by blast
  with s r f demo_runs(3) show ?thesis by blast
qed

end
